theory Spec2Isabelle
  imports Complex_Main "HOL-Library.Word"
begin

section \<open>Arrays and outcomes\<close>

text \<open>
  The program is \<^verbatim>\<open>sol3.py\<close>: Gaussian and Laplacian pyramids over NumPy arrays.
  A two-dimensional \<^verbatim>\<open>float64\<close> array is a list of rows. Samples are real numbers:
  the arithmetic of the model is exact, so rounding is not part of it. An array with no
  row has shape \<open>(0, 0)\<close> here.
\<close>

type_synonym image = "real list list"

text \<open>
  What a call can end in besides a value. The first three are Python exceptions.
  \<open>NonFinite\<close> is not one: NumPy's true division by zero warns and fills the array with
  \<^verbatim>\<open>inf\<close> and \<^verbatim>\<open>nan\<close>. Real samples hold neither, so the model records the event
  and stops there.
\<close>

datatype error = IndexError | ValueError | RecursionError | NonFinite

definition bindE :: "error + 'a \<Rightarrow> ('a \<Rightarrow> error + 'b) \<Rightarrow> error + 'b" where
  "bindE r f = (case r of Inl e \<Rightarrow> Inl e | Inr x \<Rightarrow> f x)"

text \<open>\<^verbatim>\<open>xs[i]\<close> on a Python list, for an index that is not negative.\<close>

definition nth_err :: "'a list \<Rightarrow> nat \<Rightarrow> error + 'a" where
  "nth_err xs i = (if i < length xs then Inr (xs ! i) else Inl IndexError)"

definition ncols :: "'a list list \<Rightarrow> nat" where
  "ncols im = (case im of [] \<Rightarrow> 0 | r # _ \<Rightarrow> length r)"

definition shape :: "'a list list \<Rightarrow> nat \<times> nat" where
  "shape im = (length im, ncols im)"

text \<open>A well-formed \<open>h \<times> w\<close> array: \<open>h\<close> rows, each of length \<open>w\<close>.\<close>

definition rect :: "nat \<Rightarrow> nat \<Rightarrow> 'a list list \<Rightarrow> bool" where
  "rect h w im \<longleftrightarrow> length im = h \<and> (\<forall>r \<in> set im. length r = w)"

section \<open>The blur kernel: \<^verbatim>\<open>_get_filer_row\<close>\<close>

text \<open>
  \<^verbatim>\<open>np.array([1])\<close> and \<^verbatim>\<open>np.array([1, 1])\<close> are arrays of NumPy's default integer, 64 bits
  wide on Linux and macOS (and everywhere from NumPy 2 on); \<^verbatim>\<open>scipy.signal.convolve\<close>
  keeps that type and, for operands this small, adds and multiplies directly, so the
  entries wrap around modulo \<open>2 ^ 64\<close>, and so does \<^verbatim>\<open>filter_row.sum()\<close>.
  \<open>convolve1d\<close> is the full discrete convolution
  \<open>out[n] = \<Sum>m. a[m] * v[n - m]\<close> of length \<open>len a + len v - 1\<close>.
\<close>

definition convolve1d :: "64 word list \<Rightarrow> 64 word list \<Rightarrow> 64 word list" where
  "convolve1d a v =
     map (\<lambda>n. \<Sum>m\<leftarrow>[0..<length a]. if m \<le> n \<and> n - m < length v then a ! m * v ! (n - m) else 0)
       [0..<length a + length v - 1]"

text \<open>The loop \<^verbatim>\<open>for i in range(filter_size - 1)\<close>; an empty range for \<open>filter_size \<le> 1\<close>.\<close>

definition filter_row :: "int \<Rightarrow> 64 word list" where
  "filter_row filter_size = ((\<lambda>row. convolve1d row [1, 1]) ^^ nat (filter_size - 1)) [1]"

text \<open>
  \<^verbatim>\<open>filter_row / filter_row.sum()\<close> is true division of the signed values, and the result is
  wrapped into a two-dimensional array of one row.
\<close>

definition get_filer_row :: "int \<Rightarrow> error + image" where
  "get_filer_row filter_size =
     (let row = filter_row filter_size; s = sum_list row
      in if s = 0 then Inl NonFinite
         else Inr [map (\<lambda>x. real_of_int (sint x) / real_of_int (sint s)) row])"

section \<open>NumPy and SciPy operations\<close>

text \<open>A scalar times an array, and a scalar added to one.\<close>

definition scalar_mul :: "real \<Rightarrow> image \<Rightarrow> image" where
  "scalar_mul c im = map (map (\<lambda>x. c * x)) im"

definition scalar_add :: "real \<Rightarrow> image \<Rightarrow> image" where
  "scalar_add c im = map (map (\<lambda>x. x + c)) im"

text \<open>
  Elementwise operations on two arrays follow NumPy's broadcasting: the sizes along an
  axis must be equal, or one of them is 1 and that operand is repeated along the axis.
  Any other pair of shapes raises \<^verbatim>\<open>ValueError\<close>.
\<close>

definition broadcast_dim :: "nat \<Rightarrow> nat \<Rightarrow> nat option" where
  "broadcast_dim a b =
     (if a = b then Some a else if a = 1 then Some b else if b = 1 then Some a else None)"

definition stretch :: "nat \<Rightarrow> 'a list \<Rightarrow> 'a list" where
  "stretch n xs = (if length xs = n then xs else replicate n (hd xs))"

definition np_binop :: "(real \<Rightarrow> real \<Rightarrow> real) \<Rightarrow> image \<Rightarrow> image \<Rightarrow> error + image" where
  "np_binop f a b =
     (case (broadcast_dim (length a) (length b), broadcast_dim (ncols a) (ncols b)) of
        (Some h, Some w) \<Rightarrow>
          Inr (map2 (\<lambda>r s. map2 f (stretch w r) (stretch w s)) (stretch h a) (stretch h b))
      | _ \<Rightarrow> Inl ValueError)"

definition np_add :: "image \<Rightarrow> image \<Rightarrow> error + image" where
  "np_add = np_binop (\<lambda>x y. x + y)"

definition np_sub :: "image \<Rightarrow> image \<Rightarrow> error + image" where
  "np_sub = np_binop (\<lambda>x y. x - y)"

definition np_mul :: "image \<Rightarrow> image \<Rightarrow> error + image" where
  "np_mul = np_binop (\<lambda>x y. x * y)"

text \<open>\<^verbatim>\<open>a.T\<close>, and the slice \<^verbatim>\<open>[::2]\<close> along one axis.\<close>

definition np_T :: "image \<Rightarrow> image" where
  "np_T im = map (\<lambda>j. map (\<lambda>r. r ! j) im) [0..<ncols im]"

definition every_second :: "'a list \<Rightarrow> 'a list" where
  "every_second xs = map (\<lambda>i. xs ! (2 * i)) [0..<(length xs + 1) div 2]"

text \<open>
  \<^verbatim>\<open>scipy.ndimage.convolve\<close> with its default mode \<^verbatim>\<open>reflect\<close>: the input is extended by
  mirroring about the edge of the last sample (\<^verbatim>\<open>d c b a | a b c d | d c b a\<close>), and
  \<open>reflect len c\<close> is the position inside the array that the extended position \<open>c\<close>
  reads. The weights are centred at \<open>size div 2\<close> along each axis, for odd and for even
  sizes alike, and the output has the shape of the input.
\<close>

definition reflect :: "nat \<Rightarrow> int \<Rightarrow> nat" where
  "reflect len c =
     (if len \<le> 1 then 0
      else let m = c mod (2 * int len)
           in if m < int len then nat m else nat (2 * int len - 1 - m))"

definition convolve :: "image \<Rightarrow> image \<Rightarrow> image" where
  "convolve inp weights =
     (let h = length inp; w = ncols inp; fh = length weights; fw = ncols weights
      in map (\<lambda>i. map (\<lambda>j. \<Sum>a\<leftarrow>[0..<fh]. \<Sum>b\<leftarrow>[0..<fw].
                  weights ! a ! b
                  * inp ! reflect h (int i - int a + int (fh div 2))
                        ! reflect w (int j - int b + int (fw div 2)))
                [0..<w]) [0..<h])"

section \<open>Reduce and expand\<close>

definition reduce :: "image \<Rightarrow> image \<Rightarrow> image" where
  "reduce im blur_filter =
     map every_second (every_second (convolve (convolve im blur_filter) (np_T blur_filter)))"

text \<open>The zero array of twice the size with \<open>im\<close> written to the even positions.\<close>

definition expanded_image :: "image \<Rightarrow> image" where
  "expanded_image im =
     map (\<lambda>i. map (\<lambda>j. if even i \<and> even j then im ! (i div 2) ! (j div 2) else 0)
                [0..<2 * ncols im]) [0..<2 * length im]"

definition expand :: "image \<Rightarrow> image \<Rightarrow> image" where
  "expand im blur_filter =
     convolve (convolve (expanded_image im) (scalar_mul 2 blur_filter))
       (scalar_mul 2 (np_T blur_filter))"

section \<open>The pyramids\<close>

definition MIN_IMG_SIZE :: nat where
  "MIN_IMG_SIZE = 16"

text \<open>
  The loop of \<^verbatim>\<open>build_gaussian_pyramid\<close>, with the number of iterations that
  \<^verbatim>\<open>range(max_levels - 1)\<close> still holds; \<open>last pyr\<close> is \<^verbatim>\<open>pyr[-1]\<close>.
\<close>

fun gaussian_loop :: "nat \<Rightarrow> image \<Rightarrow> image list \<Rightarrow> image list" where
  "gaussian_loop 0 filter_vec pyr = pyr"
| "gaussian_loop (Suc n) filter_vec pyr =
     (if length (last pyr) \<le> MIN_IMG_SIZE \<or> ncols (last pyr) \<le> MIN_IMG_SIZE then pyr
      else gaussian_loop n filter_vec (pyr @ [reduce (last pyr) filter_vec]))"

text \<open>
  \<^verbatim>\<open>build_gaussian_pyramid\<close> returns the pyramid and the kernel. Where the kernel is not
  finite (\<open>get_filer_row\<close> ends in \<open>NonFinite\<close>) the code still returns a pair: the kernel of
  \<^verbatim>\<open>inf\<close>, and a pyramid whose first level is the image and whose further levels, blurred
  with that kernel, hold \<^verbatim>\<open>inf\<close> and \<^verbatim>\<open>nan\<close>. That pair has no value among real samples, and
  the outcome of the model is \<open>NonFinite\<close>: some array of the returned pair, the kernel at
  least, is not finite. With \<open>max_levels \<le> 1\<close> the pyramid of the code is the image alone,
  beside the kernel of \<^verbatim>\<open>inf\<close>; the model says \<open>NonFinite\<close> there too, so an outcome
  \<open>NonFinite\<close> does not say that every returned array is non-finite.
\<close>

definition build_gaussian_pyramid :: "image \<Rightarrow> int \<Rightarrow> int \<Rightarrow> error + image list \<times> image" where
  "build_gaussian_pyramid im max_levels filter_size =
     bindE (get_filer_row filter_size) (\<lambda>filter_vec.
       Inr (gaussian_loop (nat (max_levels - 1)) filter_vec [im], filter_vec))"

text \<open>A list comprehension whose elements may raise: the first exception ends it.\<close>

fun sequenceE :: "(error + 'a) list \<Rightarrow> error + 'a list" where
  "sequenceE [] = Inr []"
| "sequenceE (r # rs) = bindE r (\<lambda>x. bindE (sequenceE rs) (\<lambda>xs. Inr (x # xs)))"

definition build_laplacian_pyramid :: "image \<Rightarrow> int \<Rightarrow> int \<Rightarrow> error + image list \<times> image" where
  "build_laplacian_pyramid im max_levels filter_size =
     bindE (build_gaussian_pyramid im max_levels filter_size) (\<lambda>(gauss_pyr, filter_vec).
       bindE (sequenceE (map (\<lambda>i. np_sub (gauss_pyr ! i) (expand (gauss_pyr ! (i + 1)) filter_vec))
                           [0..<length gauss_pyr - 1]))
         (\<lambda>lap_pyr. Inr (lap_pyr @ [last gauss_pyr], filter_vec)))"

section \<open>Reconstruction\<close>

text \<open>
  The inner function \<^verbatim>\<open>_get_gauss\<close> of \<^verbatim>\<open>laplacian_to_image\<close>. In the second branch
  Python evaluates \<^verbatim>\<open>lpyr[n] * coeff[n]\<close> before it calls itself. Python's limit on the
  depth of recursion is left out of this definition; \<open>get_gauss_depth\<close> has it.
\<close>

function get_gauss :: "image \<Rightarrow> image list \<Rightarrow> real list \<Rightarrow> nat \<Rightarrow> error + image" where
  "get_gauss filter_vec lpyr coeff n =
     (if int n = int (length lpyr) - 1
      then bindE (nth_err lpyr n) (\<lambda>l. bindE (nth_err coeff n) (\<lambda>c. Inr (scalar_mul c l)))
      else (case nth_err lpyr n of Inl e \<Rightarrow> Inl e | Inr l \<Rightarrow>
             (case nth_err coeff n of Inl e \<Rightarrow> Inl e | Inr c \<Rightarrow>
               (case get_gauss filter_vec lpyr coeff (n + 1) of Inl e \<Rightarrow> Inl e
                | Inr g \<Rightarrow> np_add (scalar_mul c l) (expand g filter_vec)))))"
  by pat_completeness auto
termination
  by (relation "measure (\<lambda>(filter_vec, lpyr, coeff, n). length lpyr - n)")
     (auto simp: nth_err_def split: if_splits)

definition laplacian_to_image :: "image list \<Rightarrow> image \<Rightarrow> real list \<Rightarrow> error + image" where
  "laplacian_to_image lpyr filter_vec coeff = get_gauss filter_vec lpyr coeff 0"

text \<open>
  The same function with the call stack counted. \<open>d\<close> is the number of nested calls the
  interpreter still allows when \<^verbatim>\<open>_get_gauss\<close> is called (\<^verbatim>\<open>sys.getrecursionlimit()\<close> less
  the frames in use), and a call beyond it raises \<^verbatim>\<open>RecursionError\<close>. A call of
  \<^verbatim>\<open>expand\<close> needs nested calls of its own: its frame and, beneath it, those of
  \<^verbatim>\<open>scipy.ndimage.convolve\<close> and of the functions that one calls. Their number
  \<open>expand_frames\<close> is fixed by the library, not by this source, so it is a parameter. The
  arithmetic on arrays and the indexing run in compiled code, without a frame. Inside the
  frame of a call that had \<open>Suc d\<close> calls left, \<open>d\<close> are left: for the call of itself first,
  and after that has returned for the call of \<^verbatim>\<open>expand\<close>, which raises \<^verbatim>\<open>RecursionError\<close> if
  \<open>d < expand_frames\<close>.
\<close>

fun get_gauss_depth ::
    "nat \<Rightarrow> nat \<Rightarrow> image \<Rightarrow> image list \<Rightarrow> real list \<Rightarrow> nat \<Rightarrow> error + image" where
  "get_gauss_depth expand_frames 0 filter_vec lpyr coeff n = Inl RecursionError"
| "get_gauss_depth expand_frames (Suc d) filter_vec lpyr coeff n =
     (if int n = int (length lpyr) - 1
      then bindE (nth_err lpyr n) (\<lambda>l. bindE (nth_err coeff n) (\<lambda>c. Inr (scalar_mul c l)))
      else (case nth_err lpyr n of Inl e \<Rightarrow> Inl e | Inr l \<Rightarrow>
             (case nth_err coeff n of Inl e \<Rightarrow> Inl e | Inr c \<Rightarrow>
               (case get_gauss_depth expand_frames d filter_vec lpyr coeff (n + 1) of
                  Inl e \<Rightarrow> Inl e
                | Inr g \<Rightarrow> if d < expand_frames then Inl RecursionError
                          else np_add (scalar_mul c l) (expand g filter_vec)))))"

definition laplacian_to_image_depth ::
    "nat \<Rightarrow> nat \<Rightarrow> image list \<Rightarrow> image \<Rightarrow> real list \<Rightarrow> error + image" where
  "laplacian_to_image_depth expand_frames d lpyr filter_vec coeff =
     get_gauss_depth expand_frames d filter_vec lpyr coeff 0"

text \<open>
  The accumulation the specification describes, without its cropping: start from
  \<open>L[n-1] \<cdot> c[n-1]\<close> and, for \<open>i\<close> from \<open>n - 2\<close> down to \<open>0\<close>, replace the accumulator by
  \<open>L[i] \<cdot> c[i] + Expand(acc)\<close>.
\<close>

definition accumulate_levels :: "image list \<Rightarrow> image \<Rightarrow> real list \<Rightarrow> error + image" where
  "accumulate_levels lpyr filter_vec coeff =
     fold (\<lambda>i acc. bindE acc (\<lambda>a. np_add (scalar_mul (coeff ! i) (lpyr ! i)) (expand a filter_vec)))
       (rev [0..<length lpyr - 1])
       (Inr (scalar_mul (coeff ! (length lpyr - 1)) (lpyr ! (length lpyr - 1))))"

section \<open>Rendering\<close>

text \<open>
  \<^verbatim>\<open>im.min()\<close> of an array without elements raises \<^verbatim>\<open>ValueError\<close>; the division is
  NumPy's, so a zero denominator gives \<open>NonFinite\<close>.
\<close>

definition stretch_image :: "image \<Rightarrow> error + image" where
  "stretch_image im =
     (if concat im = [] then Inl ValueError
      else let lo = Min (set (concat im)); hi = Max (set (concat im))
           in if hi - lo = 0 then Inl NonFinite
              else Inr (map (map (\<lambda>x. (x - lo) / (hi - lo))) im))"

text \<open>
  The loop of \<^verbatim>\<open>render_pyramid\<close> over the indices left in \<^verbatim>\<open>range(1, levels)\<close>.
  \<^verbatim>\<open>np.zeros\<close> with a negative number of rows raises \<^verbatim>\<open>ValueError\<close>; the second
  \<^verbatim>\<open>np.concatenate\<close> joins the rows of the two arrays pairwise.
\<close>

fun render_loop :: "image list \<Rightarrow> nat list \<Rightarrow> image \<Rightarrow> error + image" where
  "render_loop pyr [] res = Inr res"
| "render_loop pyr (i # is) res =
     (if i = length pyr then Inr res
      else bindE (nth_err pyr i) (\<lambda>p. bindE (stretch_image p) (\<lambda>image_to_add.
             if length res < length image_to_add then Inl ValueError
             else render_loop pyr is
                    (map2 (\<lambda>r s. r @ s) res
                       (image_to_add
                        @ replicate (length res - length image_to_add)
                            (replicate (ncols image_to_add) 0))))))"

definition render_pyramid :: "image list \<Rightarrow> int \<Rightarrow> error + image" where
  "render_pyramid pyr levels =
     (if levels < 1 then Inr []
      else bindE (nth_err pyr 0) (\<lambda>p. bindE (stretch_image p) (\<lambda>res.
             render_loop pyr [1..<nat levels] res)))"

section \<open>Blending\<close>

definition astype_float64 :: "bool list list \<Rightarrow> image" where
  "astype_float64 mask_arr = map (map (\<lambda>b. if b then 1 else 0)) mask_arr"

definition clip :: "image \<Rightarrow> real \<Rightarrow> real \<Rightarrow> image" where
  "clip im lo hi = map (map (\<lambda>x. min hi (max lo x))) im"

text \<open>
  The three pyramids are built from left to right; each level of \<^verbatim>\<open>out_lap\<close> is
  \<^verbatim>\<open>gm[i] * l1[i] + ((-1 * gm[i]) + 1) * l2[i]\<close>, and the coefficient list is
  \<^verbatim>\<open>[1] * max_levels\<close>.
\<close>

definition pyramid_blending ::
    "image \<Rightarrow> image \<Rightarrow> bool list list \<Rightarrow> int \<Rightarrow> int \<Rightarrow> int \<Rightarrow> error + image" where
  "pyramid_blending im1 im2 mask_arr max_levels filter_size_im filter_size_mask =
     bindE (build_laplacian_pyramid im1 max_levels filter_size_im) (\<lambda>(l1, fil1).
     bindE (build_laplacian_pyramid im2 max_levels filter_size_im) (\<lambda>(l2, fil).
     bindE (build_gaussian_pyramid (astype_float64 mask_arr) max_levels filter_size_mask) (\<lambda>(gm, film).
     bindE (sequenceE (map (\<lambda>i.
              bindE (nth_err gm i) (\<lambda>g. bindE (np_mul g (l1 ! i)) (\<lambda>a.
              bindE (nth_err l2 i) (\<lambda>l.
              bindE (np_mul (scalar_add 1 (scalar_mul (- 1) g)) l) (\<lambda>b. np_add a b)))))
              [0..<length l1]))
       (\<lambda>out_lap.
     bindE (laplacian_to_image out_lap fil (replicate (nat max_levels) 1)) (\<lambda>r.
       Inr (clip r 0 1))))))"

section \<open>Auxiliary definitions\<close>

text \<open>Row \<open>n\<close> of Pascal's triangle in 64-bit integers, and the same row divided by \<open>2 ^ n\<close>.\<close>

definition binom_row :: "nat \<Rightarrow> 64 word list" where
  "binom_row n = map (\<lambda>k. of_nat (n choose k)) [0..<Suc n]"

definition kernel_row :: "nat \<Rightarrow> real list" where
  "kernel_row n = map (\<lambda>k. real (n choose k) / 2 ^ n) [0..<Suc n]"

text \<open>Half a size, rounded up; and a pyramid in which every level but the last is
  larger than the minimum in both directions and is followed by its reduction.\<close>

definition halve :: "nat \<Rightarrow> nat" where
  "halve n = (n + 1) div 2"

definition reduce_chain :: "image \<Rightarrow> image list \<Rightarrow> bool" where
  "reduce_chain fv pyr \<longleftrightarrow>
     (\<forall>i. Suc i < length pyr \<longrightarrow>
        MIN_IMG_SIZE < length (pyr ! i) \<and> MIN_IMG_SIZE < ncols (pyr ! i) \<and>
        pyr ! Suc i = reduce (pyr ! i) fv)"

text \<open>The sum of all weights of a two-dimensional kernel.\<close>

definition weight_total :: "image \<Rightarrow> real" where
  "weight_total k = (\<Sum>a\<leftarrow>[0..<length k]. \<Sum>b\<leftarrow>[0..<ncols k]. k ! a ! b)"

text \<open>\<open>L\<close> is the Laplacian pyramid of the Gaussian pyramid \<open>G\<close>: the levels but the last are the
  differences of a level and the expansion of the next, which have one shape.\<close>

definition laplacian_of :: "image \<Rightarrow> image list \<Rightarrow> image list \<Rightarrow> bool" where
  "laplacian_of fv G L \<longleftrightarrow>
     G \<noteq> [] \<and> length L = length G \<and> last L = last G \<and>
     (\<forall>i. Suc i < length G \<longrightarrow>
        (\<exists>hh ww. rect hh ww (G ! i) \<and> rect hh ww (expand (G ! Suc i) fv)) \<and>
        L ! i = map2 (map2 (\<lambda>x y. x - y)) (G ! i) (expand (G ! Suc i) fv))"

section \<open>The kernel is a row of Pascal's triangle\<close>

lemma sum_list_two_deltas:
  fixes f :: "nat \<Rightarrow> 'a::comm_monoid_add"
  shows "(\<Sum>m\<leftarrow>[0..<l]. if m \<le> n \<and> n - m < 2 then f m else 0)
       = (if n < l then f n else 0) + (if 0 < n \<and> n - 1 < l then f (n - 1) else 0)"
proof -
  have "(\<Sum>m\<leftarrow>[0..<l]. if m \<le> n \<and> n - m < 2 then f m else 0)
      = (\<Sum>m\<in>{0..<l}. (if m = n then f m else 0) + (if 0 < n \<and> m = n - 1 then f m else 0))"
    unfolding interv_sum_list_conv_sum_set_nat
    by (rule sum.cong) (auto)
  also have "\<dots> = (\<Sum>m\<in>{0..<l}. if m = n then f m else 0) + (\<Sum>m\<in>{0..<l}. if 0 < n \<and> m = n - 1 then f m else 0)"
    by (rule sum.distrib)
  also have "(\<Sum>m\<in>{0..<l}. if m = n then f m else 0) = (if n < l then f n else 0)"
    by (simp add: sum.delta)
  also have "(\<Sum>m\<in>{0..<l}. if 0 < n \<and> m = n - 1 then f m else 0) = (if 0 < n \<and> n - 1 < l then f (n - 1) else 0)"
    by (cases "0 < n") (simp_all add: sum.delta)
  finally show ?thesis .
qed

lemma convolve1d_pair: "convolve1d a [1, 1] = map2 (+) (a @ [0]) (0 # a)"
proof (rule nth_equalityI)
  show "length (convolve1d a [1, 1]) = length (map2 (+) (a @ [0]) (0 # a))"
    by (simp add: convolve1d_def)
next
  fix n assume "n < length (convolve1d a [1, 1])"
  then have n: "n < Suc (length a)" by (simp add: convolve1d_def)
  have "convolve1d a [1, 1] ! n = (\<Sum>m\<leftarrow>[0..<length a]. if m \<le> n \<and> n - m < 2 then a ! m else 0)"
    using n unfolding convolve1d_def
    by (auto intro!: arg_cong[where f=sum_list] simp: nth_Cons' less_Suc_eq simp del: upt_Suc)
  also have "\<dots> = (if n < length a then a ! n else 0) + (if 0 < n \<and> n - 1 < length a then a ! (n - 1) else 0)"
    by (rule sum_list_two_deltas)
  also have "\<dots> = map2 (+) (a @ [0]) (0 # a) ! n"
    using n by (auto simp: nth_append nth_Cons' less_Suc_eq)
  finally show "convolve1d a [1, 1] ! n = map2 (+) (a @ [0]) (0 # a) ! n" .
qed

lemma binom_row_step: "convolve1d (binom_row n) [1, 1] = binom_row (Suc n)"
proof (rule nth_equalityI)
  show "length (convolve1d (binom_row n) [1, 1]) = length (binom_row (Suc n))"
    by (simp add: convolve1d_pair binom_row_def)
next
  fix k assume "k < length (convolve1d (binom_row n) [1, 1])"
  then have k: "k < Suc (Suc n)" by (simp add: convolve1d_pair binom_row_def)
  show "convolve1d (binom_row n) [1, 1] ! k = binom_row (Suc n) ! k"
  proof (cases k)
    case 0
    then show ?thesis unfolding convolve1d_pair binom_row_def
      by (simp add: nth_append del: upt_Suc)
  next
    case (Suc j)
    then have j: "j < Suc n" using k by simp
    show ?thesis
    proof (cases "Suc j < Suc n")
      case True
      then show ?thesis using Suc j unfolding convolve1d_pair binom_row_def
        by (simp add: nth_append del: upt_Suc)
    next
      case False
      then have "j = n" using j by simp
      then show ?thesis using Suc unfolding convolve1d_pair binom_row_def
        by (simp add: nth_append del: upt_Suc)
    qed
  qed
qed

lemma filter_row_binom: "filter_row fs = binom_row (nat (fs - 1))"
proof -
  have "((\<lambda>row. convolve1d row [1, 1]) ^^ n) [1] = binom_row n" for n
    by (induction n) (simp_all add: binom_row_step, simp add: binom_row_def)
  then show ?thesis by (simp add: filter_row_def)
qed

lemma sum_binom_row: "sum_list (binom_row n) = 2 ^ n"
proof -
  have "sum_list (binom_row n) = (\<Sum>k\<in>{0..<Suc n}. of_nat (n choose k))"
    unfolding binom_row_def by (simp add: interv_sum_list_conv_sum_set_nat del: upt_Suc)
  also have "\<dots> = of_nat (\<Sum>k\<in>{..n}. n choose k)"
    by (simp add: atLeast0LessThan lessThan_Suc_atMost del: sum.lessThan_Suc)
  also have "\<dots> = 2 ^ n" by (simp add: choose_row_sum)
  finally show ?thesis .
qed



lemma sint_small: "m < 2 ^ 63 \<Longrightarrow> sint (of_nat m :: 64 word) = int m"
  by (simp add: signed_of_nat signed_take_bit_int_eq_self)

lemma sint_binom: "n \<le> 62 \<Longrightarrow> sint (of_nat (n choose k) :: 64 word) = int (n choose k)"
proof -
  assume n: "n \<le> 62"
  have "n choose k \<le> 2 ^ n" by (rule binomial_le_pow2)
  also have "(2::nat) ^ n \<le> 2 ^ 62" using n by (intro power_increasing) simp_all
  finally have "n choose k < 2 ^ 63" by simp
  then show ?thesis by (rule sint_small)
qed

lemma sint_pow2: "n \<le> 62 \<Longrightarrow> sint (2 ^ n :: 64 word) = 2 ^ n"
proof -
  assume n: "n \<le> 62"
  have "(2::nat) ^ n \<le> 2 ^ 62" using n by (intro power_increasing) simp_all
  then have "sint (of_nat (2 ^ n) :: 64 word) = int (2 ^ n)" by (intro sint_small) simp
  then show ?thesis by simp
qed

lemma signed_binom: "n \<le> 62 \<Longrightarrow> (signed (of_nat (n choose k) :: 64 word) :: real) = real (n choose k)"
proof -
  assume n: "n \<le> 62"
  have "(signed (of_nat (n choose k) :: 64 word) :: real) = of_int (sint (of_nat (n choose k) :: 64 word))"
    by (simp only: of_int_sint)
  then show ?thesis by (simp only: sint_binom[OF n] of_int_of_nat_eq)
qed

lemma signed_pow2: "n \<le> 62 \<Longrightarrow> (signed (2 ^ n :: 64 word) :: real) = 2 ^ n"
proof -
  assume n: "n \<le> 62"
  have "(signed (2 ^ n :: 64 word) :: real) = of_int (sint (2 ^ n :: 64 word))"
    by (simp only: of_int_sint)
  then show ?thesis by (simp add: sint_pow2[OF n] del: of_int_sint)
qed

lemma pow2_word_zero: "64 \<le> n \<Longrightarrow> (2 ^ n :: 64 word) = 0"
  by (simp add: power_eq_0_iff)
lemma pow2_word_nonzero: "n \<le> 62 \<Longrightarrow> (2 ^ n :: 64 word) \<noteq> 0"
  using sint_pow2[of n] by auto

lemma get_filer_row_small:
  assumes "fs \<le> 63"
  shows "get_filer_row fs = Inr [kernel_row (nat (fs - 1))]"
proof -
  let ?n = "nat (fs - 1)"
  have n: "?n \<le> 62" using assms by simp
  have "map (\<lambda>x. real_of_int (sint x) / real_of_int (sint (2 ^ ?n :: 64 word))) (binom_row ?n) = kernel_row ?n"
    unfolding binom_row_def kernel_row_def using n
    by (simp add: signed_binom signed_pow2 del: upt_Suc)
  then show ?thesis
    using pow2_word_nonzero[OF n] by (simp add: get_filer_row_def filter_row_binom sum_binom_row)
qed

lemma get_filer_row_big:
  assumes "65 \<le> fs"
  shows "get_filer_row fs = Inl NonFinite"
  using assms by (simp add: get_filer_row_def filter_row_binom sum_binom_row pow2_word_zero)

lemma sum_kernel_row: "sum_list (kernel_row n) = 1"
proof -
  have "sum_list (kernel_row n) = (\<Sum>k\<in>{0..<Suc n}. real (n choose k) / 2 ^ n)"
    unfolding kernel_row_def by (simp add: interv_sum_list_conv_sum_set_nat del: upt_Suc)
  also have "\<dots> = real (\<Sum>k\<in>{..n}. n choose k) / 2 ^ n"
    by (simp add: atLeast0LessThan lessThan_Suc_atMost sum_divide_distrib del: sum.lessThan_Suc)
  also have "\<dots> = 1" by (simp add: choose_row_sum)
  finally show ?thesis .
qed

lemma length_kernel_row: "length (kernel_row n) = Suc n"
  by (simp add: kernel_row_def)


text \<open>
  C3. The claim: \<^verbatim>\<open>_get_filer_row\<close> fails with \<open>InvalidParameter\<close> for an even size or a
  size below 1, and raises for size 2. The code has no check of the size. Size 2 gives the
  kernel \<open>[0.5, 0.5]\<close>.
\<close>

theorem get_filer_row_even_counterexample: "get_filer_row 2 = Inr [[1 / 2, 1 / 2]]"
  by (simp add: get_filer_row_small kernel_row_def)

text \<open>
  C3 as amended: no size is rejected. Every size below 1 gives the kernel \<open>[1]\<close>, and
  every even size from 2 to 62 gives a kernel of that length whose entries sum to 1.
\<close>

theorem get_filer_row_unchecked:
  "(fs < 1 \<longrightarrow> get_filer_row fs = Inr [[1]]) \<and>
   (even fs \<and> 2 \<le> fs \<and> fs \<le> 62 \<longrightarrow>
      (\<exists>row. get_filer_row fs = Inr [row] \<and> int (length row) = fs \<and> sum_list row = 1))"
proof (intro conjI impI)
  assume "fs < 1"
  then have "nat (fs - 1) = 0" and "fs \<le> 63" by simp_all
  then show "get_filer_row fs = Inr [[1]]"
    by (simp add: get_filer_row_small kernel_row_def)
next
  assume fs: "even fs \<and> 2 \<le> fs \<and> fs \<le> 62"
  then have "get_filer_row fs = Inr [kernel_row (nat (fs - 1))]"
    by (intro get_filer_row_small) simp
  moreover have "int (length (kernel_row (nat (fs - 1)))) = fs"
    using fs by (simp add: length_kernel_row)
  ultimately show "\<exists>row. get_filer_row fs = Inr [row] \<and> int (length row) = fs \<and> sum_list row = 1"
    using sum_kernel_row by blast
qed

theorem get_filer_row_unchecked_witness:
  "get_filer_row 0 = Inr [[1]] \<and>
   (\<exists>row. get_filer_row 4 = Inr [row] \<and> int (length row) = 4 \<and> sum_list row = 1)"
  using get_filer_row_unchecked [of 0] get_filer_row_unchecked [of 4] by simp

text \<open>
  For the odd sizes from 1 to 63 the kernel has the size as its length and its entries sum
  to 1, and size 1 gives the kernel \<open>[1]\<close>.
\<close>

lemma get_filer_row_odd_upto_63:
  assumes "odd fs" "1 \<le> fs" "fs \<le> 63"
  shows "\<exists>row. get_filer_row fs = Inr [row] \<and> int (length row) = fs \<and> sum_list row = 1"
proof -
  have "get_filer_row fs = Inr [kernel_row (nat (fs - 1))]"
    using assms(3) by (rule get_filer_row_small)
  moreover have "int (length (kernel_row (nat (fs - 1)))) = fs"
    using assms(2) by (simp add: length_kernel_row)
  ultimately show ?thesis using sum_kernel_row by blast
qed

lemma get_filer_row_1: "get_filer_row 1 = Inr [[1]]"
  by (simp add: get_filer_row_small kernel_row_def)

text \<open>
  C7. The claim: for every odd size from 1 on, the kernel has that length and sums to 1.
  At size 65 the integer row is row 64 of Pascal's triangle and its 64-bit sum is
  \<open>2 ^ 64 = 0\<close>, so the division is by zero and no entry of the result is a number.
\<close>

theorem get_filer_row_65: "get_filer_row 65 = Inl NonFinite"
  by (rule get_filer_row_big) simp

section \<open>Shapes\<close>

lemma rect_ncols: "rect h w im \<Longrightarrow> 0 < h \<Longrightarrow> ncols im = w"
  by (cases im) (auto simp: rect_def ncols_def)

lemma rect_nth: "rect h w im \<Longrightarrow> i < h \<Longrightarrow> length (im ! i) = w"
  by (auto simp: rect_def)

lemma rect_length: "rect h w im \<Longrightarrow> length im = h"
  by (simp add: rect_def)

lemma rectI: "length im = h \<Longrightarrow> (\<And>i. i < h \<Longrightarrow> length (im ! i) = w) \<Longrightarrow> rect h w im"
  by (auto simp: rect_def in_set_conv_nth)

lemma rect_replicate: "rect h w (replicate h (replicate w c))"
  by (simp add: rect_def)

lemma reflect_less: "0 < len \<Longrightarrow> reflect len c < len"
proof -
  assume len: "0 < len"
  show ?thesis
  proof (cases "len \<le> 1")
    case True
    then show ?thesis using len by (simp add: reflect_def)
  next
    case False
    let ?m = "c mod (2 * int len)"
    have "0 \<le> ?m" and "?m < 2 * int len" using len by simp_all
    then show ?thesis using False by (auto simp: reflect_def Let_def)
  qed
qed

lemma length_convolve: "length (convolve inp k) = length inp"
  by (simp add: convolve_def Let_def)

lemma rect_convolve: "rect h w inp \<Longrightarrow> rect h w (convolve inp k)"
proof (cases "h = 0")
  case True
  assume "rect h w inp"
  then show ?thesis using True by (simp add: rect_def convolve_def)
next
  case False
  assume r: "rect h w inp"
  then have "ncols inp = w" using False by (simp add: rect_ncols)
  then show ?thesis using r by (simp add: rect_def convolve_def Let_def)
qed

lemma length_every_second: "length (every_second xs) = (length xs + 1) div 2"
  by (simp add: every_second_def)

lemma nth_every_second: "i < (length xs + 1) div 2 \<Longrightarrow> every_second xs ! i = xs ! (2 * i)"
  by (simp add: every_second_def)

lemma rect_reduce:
  assumes "rect h w im"
  shows "rect ((h + 1) div 2) ((w + 1) div 2) (reduce im k)"
proof (rule rectI)
  let ?c = "convolve (convolve im k) (np_T k)"
  have c: "rect h w ?c" using assms by (intro rect_convolve)
  show "length (reduce im k) = (h + 1) div 2"
    using c by (simp add: reduce_def length_every_second rect_length)
  fix i assume i: "i < (h + 1) div 2"
  then have "2 * i < h" by arith
  then have "length (?c ! (2 * i)) = w" using c by (simp add: rect_nth)
  then show "length (reduce im k ! i) = (w + 1) div 2"
    using i c by (simp add: reduce_def length_every_second nth_every_second rect_length)
qed

lemma rect_expanded_image: "rect h w im \<Longrightarrow> rect (2 * h) (2 * w) (expanded_image im)"
proof (cases "h = 0")
  case True
  assume "rect h w im"
  then show ?thesis using True by (simp add: rect_def expanded_image_def)
next
  case False
  assume r: "rect h w im"
  then have "ncols im = w" using False by (simp add: rect_ncols)
  then show ?thesis using r by (simp add: rect_def expanded_image_def)
qed

lemma rect_expand: "rect h w im \<Longrightarrow> rect (2 * h) (2 * w) (expand im k)"
  unfolding expand_def by (intro rect_convolve rect_expanded_image)

section \<open>The loop of the Gaussian pyramid\<close>

lemma reduce_chain_single: "reduce_chain fv [im]"
  by (simp add: reduce_chain_def)

lemma reduce_chain_snoc:
  assumes "reduce_chain fv pyr" "pyr \<noteq> []"
    "MIN_IMG_SIZE < length (last pyr)" "MIN_IMG_SIZE < ncols (last pyr)"
  shows "reduce_chain fv (pyr @ [reduce (last pyr) fv])"
  unfolding reduce_chain_def
proof (intro allI impI)
  fix i assume "Suc i < length (pyr @ [reduce (last pyr) fv])"
  then have i: "i < length pyr" by simp
  show "MIN_IMG_SIZE < length ((pyr @ [reduce (last pyr) fv]) ! i) \<and>
        MIN_IMG_SIZE < ncols ((pyr @ [reduce (last pyr) fv]) ! i) \<and>
        (pyr @ [reduce (last pyr) fv]) ! Suc i = reduce ((pyr @ [reduce (last pyr) fv]) ! i) fv"
  proof (cases "Suc i < length pyr")
    case True
    then show ?thesis using assms(1) i by (simp add: reduce_chain_def nth_append)
  next
    case False
    then have "i = length pyr - 1" "length pyr = Suc i" using i by simp_all
    then have "pyr ! i = last pyr" "(pyr @ [reduce (last pyr) fv]) ! Suc i = reduce (last pyr) fv"
      using assms(2) by (auto simp: last_conv_nth nth_append)
    then show ?thesis using assms(3,4) i by (simp add: nth_append)
  qed
qed

lemma gaussian_loop_nonempty: "pyr \<noteq> [] \<Longrightarrow> gaussian_loop n fv pyr \<noteq> []"
  by (induction n fv pyr rule: gaussian_loop.induct) auto

lemma gaussian_loop_chain:
  "pyr \<noteq> [] \<Longrightarrow> reduce_chain fv pyr \<Longrightarrow> reduce_chain fv (gaussian_loop n fv pyr)"
proof (induction n fv pyr rule: gaussian_loop.induct)
  case (1 fv pyr)
  then show ?case by simp
next
  case (2 n fv pyr)
  show ?case
  proof (cases "length (last pyr) \<le> MIN_IMG_SIZE \<or> ncols (last pyr) \<le> MIN_IMG_SIZE")
    case True
    then show ?thesis using 2 by simp
  next
    case False
    then have "reduce_chain fv (pyr @ [reduce (last pyr) fv])"
      using 2(2,3) by (intro reduce_chain_snoc) auto
    then show ?thesis using False 2(1) by simp
  qed
qed

lemma gaussian_loop_length:
  "length pyr \<le> length (gaussian_loop n fv pyr) \<and> length (gaussian_loop n fv pyr) \<le> length pyr + n"
  by (induction n fv pyr rule: gaussian_loop.induct) auto

lemma gaussian_loop_prefix: "i < length pyr \<Longrightarrow> gaussian_loop n fv pyr ! i = pyr ! i"
  by (induction n fv pyr rule: gaussian_loop.induct) (auto simp: nth_append)

lemma gaussian_loop_stop:
  "pyr \<noteq> [] \<Longrightarrow> length (gaussian_loop n fv pyr) < length pyr + n \<Longrightarrow>
   length (last (gaussian_loop n fv pyr)) \<le> MIN_IMG_SIZE \<or>
   ncols (last (gaussian_loop n fv pyr)) \<le> MIN_IMG_SIZE"
  by (induction n fv pyr rule: gaussian_loop.induct) (auto split: if_splits)

lemma halve_pos: "0 < n \<Longrightarrow> 0 < (halve ^^ i) n"
  by (induction i) (auto simp: halve_def)

lemma chain_rect:
  assumes "reduce_chain fv pyr" "rect h w (pyr ! 0)"
  shows "i < length pyr \<Longrightarrow> rect ((halve ^^ i) h) ((halve ^^ i) w) (pyr ! i)"
proof (induction i)
  case 0
  then show ?case using assms(2) by simp
next
  case (Suc i)
  then have "rect ((halve ^^ i) h) ((halve ^^ i) w) (pyr ! i)" by simp
  then have "rect (halve ((halve ^^ i) h)) (halve ((halve ^^ i) w)) (reduce (pyr ! i) fv)"
    unfolding halve_def by (rule rect_reduce)
  moreover have "pyr ! Suc i = reduce (pyr ! i) fv"
    using assms(1) Suc.prems by (simp add: reduce_chain_def)
  ultimately show ?case by simp
qed

lemma shape_rect: "rect h w im \<Longrightarrow> 0 < h \<Longrightarrow> shape im = (h, w)"
  by (simp add: shape_def rect_ncols rect_length)

lemma build_gaussian_pyramid_small:
  "filter_size \<le> 63 \<Longrightarrow>
   build_gaussian_pyramid im max_levels filter_size =
     Inr (gaussian_loop (nat (max_levels - 1)) [kernel_row (nat (filter_size - 1))] [im],
          [kernel_row (nat (filter_size - 1))])"
  by (simp add: build_gaussian_pyramid_def get_filer_row_small bindE_def)

lemma gaussian_loop_32:
  assumes "rect 32 32 im"
  shows "map shape (gaussian_loop 2 fv [im]) = [(32, 32), (16, 16)]"
proof -
  have s: "shape im = (32, 32)" using assms by (simp add: shape_rect)
  have "rect ((32 + 1) div 2) ((32 + 1) div 2) (reduce im fv)" using assms by (rule rect_reduce)
  then have r: "rect 16 16 (reduce im fv)" by simp
  then have s': "shape (reduce im fv) = (16, 16)" by (simp add: shape_rect)
  have "gaussian_loop (Suc (Suc 0)) fv [im] = [im, reduce im fv]"
    using s s' by (simp add: shape_def MIN_IMG_SIZE_def)
  then show ?thesis using s s' by (simp add: numeral_2_eq_2)
qed

lemma gaussian_loop_shapes:
  assumes "rect h w im" "0 < h" "0 < w" "1 \<le> max_levels"
    "pyr = gaussian_loop (nat (max_levels - 1)) fv [im]"
  shows "1 \<le> length pyr \<and> int (length pyr) \<le> max_levels \<and>
     shape (pyr ! 0) = (h, w) \<and>
     (\<forall>i. Suc i < length pyr \<longrightarrow>
        shape (pyr ! Suc i) = ((fst (shape (pyr ! i)) + 1) div 2, (snd (shape (pyr ! i)) + 1) div 2) \<and>
        16 < fst (shape (pyr ! i)) \<and> 16 < snd (shape (pyr ! i))) \<and>
     (int (length pyr) < max_levels \<longrightarrow>
        fst (shape (last pyr)) \<le> 16 \<or> snd (shape (last pyr)) \<le> 16) \<and>
     (h = 32 \<and> w = 32 \<and> max_levels = 3 \<longrightarrow> map shape pyr = [(32, 32), (16, 16)])"
proof -
  let ?n = "nat (max_levels - 1)"
  let ?pyr = "gaussian_loop ?n fv [im]"
  have len: "1 \<le> length ?pyr" "length ?pyr \<le> 1 + ?n"
    using gaussian_loop_length [of "[im]" ?n fv] by simp_all
  then have len2: "int (length ?pyr) \<le> max_levels" using assms(4) by linarith
  have p0: "?pyr ! 0 = im" by (simp add: gaussian_loop_prefix)
  have chain: "reduce_chain fv ?pyr"
    by (intro gaussian_loop_chain reduce_chain_single) simp
  have r: "rect ((halve ^^ i) h) ((halve ^^ i) w) (?pyr ! i)" if "i < length ?pyr" for i
    using chain _ that by (rule chain_rect) (simp add: p0 assms(1))
  have sh: "shape (?pyr ! i) = ((halve ^^ i) h, (halve ^^ i) w)" if "i < length ?pyr" for i
    using r [OF that] halve_pos [OF assms(2)] by (rule shape_rect)
  have step: "shape (?pyr ! Suc i) = ((fst (shape (?pyr ! i)) + 1) div 2, (snd (shape (?pyr ! i)) + 1) div 2) \<and>
        16 < fst (shape (?pyr ! i)) \<and> 16 < snd (shape (?pyr ! i))" if "Suc i < length ?pyr" for i
  proof -
    have "MIN_IMG_SIZE < length (?pyr ! i) \<and> MIN_IMG_SIZE < ncols (?pyr ! i)"
      using chain that by (simp add: reduce_chain_def)
    then show ?thesis using sh [of i] sh [OF that] that
      by (simp add: shape_def halve_def MIN_IMG_SIZE_def)
  qed
  have stop: "fst (shape (last ?pyr)) \<le> 16 \<or> snd (shape (last ?pyr)) \<le> 16"
    if "int (length ?pyr) < max_levels"
  proof -
    have "length ?pyr < length [im] + ?n" using that by simp
    with gaussian_loop_stop [of "[im]" ?n fv] show ?thesis
      by (simp add: shape_def MIN_IMG_SIZE_def)
  qed
  have conc: "map shape ?pyr = [(32, 32), (16, 16)]" if "h = 32 \<and> w = 32 \<and> max_levels = 3"
    using that assms(1) gaussian_loop_32 [of im fv] by simp
  show ?thesis
    unfolding assms(5) using len(1) len2 sh [of 0] p0 step stop conc
    by (simp add: shape_rect [OF assms(1,2)])
qed

text \<open>
  C4. For a well-formed \<open>h \<times> w\<close> image and \<open>max_levels \<ge> 1\<close>, take the pyramid that the loop
  of \<^verbatim>\<open>build_gaussian_pyramid\<close> builds with any kernel, or the pyramid that
  \<^verbatim>\<open>build_gaussian_pyramid\<close> returns. It has at least one and at most \<open>max_levels\<close> levels and
  starts with the image; every level after a level of size \<open>(a, b)\<close> has size
  \<open>(\<lceil>a / 2\<rceil>, \<lceil>b / 2\<rceil>)\<close>; a level is followed by another only if its height and width both
  exceed 16, and a pyramid shorter than \<open>max_levels\<close> ends in a level of height or width at
  most 16. A \<open>32 \<times> 32\<close> image with \<open>max_levels = 3\<close> gives the two levels \<open>32 \<times> 32\<close> and
  \<open>16 \<times> 16\<close>. For a filter size up to 63, \<^verbatim>\<open>build_gaussian_pyramid\<close> returns a pyramid.
\<close>

theorem build_gaussian_pyramid_shapes:
  assumes "rect h w im" "0 < h" "0 < w" "1 \<le> max_levels"
  shows "(\<forall>pyr.
     pyr = gaussian_loop (nat (max_levels - 1)) filter_vec [im] \<or>
     (\<exists>fv. build_gaussian_pyramid im max_levels filter_size = Inr (pyr, fv)) \<longrightarrow>
     1 \<le> length pyr \<and> int (length pyr) \<le> max_levels \<and>
     shape (pyr ! 0) = (h, w) \<and>
     (\<forall>i. Suc i < length pyr \<longrightarrow>
        shape (pyr ! Suc i) = ((fst (shape (pyr ! i)) + 1) div 2, (snd (shape (pyr ! i)) + 1) div 2) \<and>
        16 < fst (shape (pyr ! i)) \<and> 16 < snd (shape (pyr ! i))) \<and>
     (int (length pyr) < max_levels \<longrightarrow>
        fst (shape (last pyr)) \<le> 16 \<or> snd (shape (last pyr)) \<le> 16) \<and>
     (h = 32 \<and> w = 32 \<and> max_levels = 3 \<longrightarrow> map shape pyr = [(32, 32), (16, 16)])) \<and>
   (filter_size \<le> 63 \<longrightarrow>
      (\<exists>pyr fv. build_gaussian_pyramid im max_levels filter_size = Inr (pyr, fv)))"
proof (rule conjI)
  show "\<forall>pyr.
     pyr = gaussian_loop (nat (max_levels - 1)) filter_vec [im] \<or>
     (\<exists>fv. build_gaussian_pyramid im max_levels filter_size = Inr (pyr, fv)) \<longrightarrow>
     1 \<le> length pyr \<and> int (length pyr) \<le> max_levels \<and>
     shape (pyr ! 0) = (h, w) \<and>
     (\<forall>i. Suc i < length pyr \<longrightarrow>
        shape (pyr ! Suc i) = ((fst (shape (pyr ! i)) + 1) div 2, (snd (shape (pyr ! i)) + 1) div 2) \<and>
        16 < fst (shape (pyr ! i)) \<and> 16 < snd (shape (pyr ! i))) \<and>
     (int (length pyr) < max_levels \<longrightarrow>
        fst (shape (last pyr)) \<le> 16 \<or> snd (shape (last pyr)) \<le> 16) \<and>
     (h = 32 \<and> w = 32 \<and> max_levels = 3 \<longrightarrow> map shape pyr = [(32, 32), (16, 16)])"
  proof (intro allI impI)
  fix pyr
  assume "pyr = gaussian_loop (nat (max_levels - 1)) filter_vec [im] \<or>
     (\<exists>fv. build_gaussian_pyramid im max_levels filter_size = Inr (pyr, fv))"
  then obtain fv where "pyr = gaussian_loop (nat (max_levels - 1)) fv [im]"
    by (auto simp: build_gaussian_pyramid_def bindE_def split: sum.splits)
  then show "1 \<le> length pyr \<and> int (length pyr) \<le> max_levels \<and>
     shape (pyr ! 0) = (h, w) \<and>
     (\<forall>i. Suc i < length pyr \<longrightarrow>
        shape (pyr ! Suc i) = ((fst (shape (pyr ! i)) + 1) div 2, (snd (shape (pyr ! i)) + 1) div 2) \<and>
        16 < fst (shape (pyr ! i)) \<and> 16 < snd (shape (pyr ! i))) \<and>
     (int (length pyr) < max_levels \<longrightarrow>
        fst (shape (last pyr)) \<le> 16 \<or> snd (shape (last pyr)) \<le> 16) \<and>
     (h = 32 \<and> w = 32 \<and> max_levels = 3 \<longrightarrow> map shape pyr = [(32, 32), (16, 16)])"
    by (rule gaussian_loop_shapes [OF assms])
  qed
next
  show "filter_size \<le> 63 \<longrightarrow>
      (\<exists>pyr fv. build_gaussian_pyramid im max_levels filter_size = Inr (pyr, fv))"
    by (simp add: build_gaussian_pyramid_small)
qed

theorem build_gaussian_pyramid_shapes_witness:
  "\<exists>pyr filter_vec.
     build_gaussian_pyramid (replicate 32 (replicate 32 (1 / 2))) 3 3 = Inr (pyr, filter_vec) \<and>
     length pyr = 2 \<and> map shape pyr = [(32, 32), (16, 16)]"
proof -
  let ?im = "replicate 32 (replicate 32 (1 / 2)) :: image"
  have r: "rect 32 32 ?im" by (simp add: rect_def)
  note t = build_gaussian_pyramid_shapes [OF r, of 3 "[]" 3]
  from t obtain pyr fv where b: "build_gaussian_pyramid ?im 3 3 = Inr (pyr, fv)" by auto
  then have "map shape pyr = [(32, 32), (16, 16)]"
    using t [THEN conjunct1, rule_format, of pyr] by auto
  moreover from this have "length pyr = 2"
    by (metis length_map length_Cons list.size(3) Suc_1 One_nat_def)
  ultimately show ?thesis using b by (intro exI conjI)
qed

section \<open>Constant images\<close>

lemma ncols_replicate: "0 < h \<Longrightarrow> ncols (replicate h r) = length r"
  by (cases h) (simp_all add: ncols_def)

lemma every_second_replicate: "every_second (replicate n x) = replicate ((n + 1) div 2) x"
proof (rule nth_equalityI)
  show "length (every_second (replicate n x)) = length (replicate ((n + 1) div 2) x)"
    by (simp add: every_second_def)
next
  fix i assume "i < length (every_second (replicate n x))"
  then have i: "i < (n + 1) div 2" by (simp add: every_second_def)
  then have "2 * i < n" by arith
  then show "every_second (replicate n x) ! i = replicate ((n + 1) div 2) x ! i"
    using i by (simp add: every_second_def)
qed

lemma sum_list_times_const:
  fixes f :: "nat \<Rightarrow> real"
  shows "(\<Sum>a\<leftarrow>xs. f a * c) = (\<Sum>a\<leftarrow>xs. f a) * c"
  by (induction xs) (simp_all add: algebra_simps)

lemma convolve_const:
  assumes "0 < h" "0 < w"
  shows "convolve (replicate h (replicate w c)) k = replicate h (replicate w (weight_total k * c))"
proof -
  have "(\<Sum>a\<leftarrow>[0..<length k]. \<Sum>b\<leftarrow>[0..<ncols k]. k ! a ! b * c) = weight_total k * c"
    by (simp add: weight_total_def sum_list_times_const)
  then show ?thesis
    using assms
    by (simp add: convolve_def ncols_replicate reflect_less map_replicate_const)
qed

lemma weight_total_row: "weight_total [row] = sum_list row"
proof -
  have "weight_total [row] = (\<Sum>b\<leftarrow>[0..<length row]. row ! b)"
    by (simp add: weight_total_def ncols_def)
  also have "\<dots> = sum_list row" by (simp add: map_nth)
  finally show ?thesis .
qed

lemma np_T_row: "np_T [row] = map (\<lambda>x. [x]) row"
  by (rule nth_equalityI) (simp_all add: np_T_def ncols_def)

lemma weight_total_col: "weight_total (map (\<lambda>x. [x]) row) = sum_list row"
proof (cases row)
  case Nil
  then show ?thesis by (simp add: weight_total_def)
next
  case (Cons x xs)
  then have "ncols (map (\<lambda>x. [x]) row) = 1" by (simp add: ncols_def)
  then have "weight_total (map (\<lambda>x. [x]) row) = (\<Sum>a\<leftarrow>[0..<length row]. map (\<lambda>x. [x]) row ! a ! 0)"
    by (simp add: weight_total_def)
  also have "\<dots> = (\<Sum>a\<leftarrow>[0..<length row]. row ! a)"
    by (rule arg_cong [where f = sum_list]) (rule map_cong, simp_all)
  also have "\<dots> = sum_list row" by (simp add: map_nth)
  finally show ?thesis .
qed

lemma reduce_const:
  assumes "0 < h" "0 < w"
  shows "reduce (replicate h (replicate w c)) [row] =
         replicate ((h + 1) div 2) (replicate ((w + 1) div 2) (sum_list row * (sum_list row * c)))"
  using assms
  by (simp add: reduce_def convolve_const np_T_row weight_total_row weight_total_col
        every_second_replicate)

lemma Suc_div2_halve: "Suc n div 2 = halve n"
  by (simp add: halve_def)

lemma chain_const:
  assumes "reduce_chain [row] pyr" "pyr ! 0 = replicate h (replicate w c)" "0 < h" "0 < w"
    "sum_list row = 1"
  shows "i < length pyr \<Longrightarrow> pyr ! i = replicate ((halve ^^ i) h) (replicate ((halve ^^ i) w) c)"
proof (induction i)
  case 0
  then show ?case using assms(2) by simp
next
  case (Suc i)
  then have "pyr ! i = replicate ((halve ^^ i) h) (replicate ((halve ^^ i) w) c)" by simp
  moreover have "pyr ! Suc i = reduce (pyr ! i) [row]"
    using assms(1) Suc.prems by (simp add: reduce_chain_def)
  ultimately show ?case
    using halve_pos [OF assms(3), of i] halve_pos [OF assms(4), of i] assms(5)
    by (simp add: reduce_const Suc_div2_halve)
qed

lemma gaussian_pyramid_const:
  assumes "0 < h" "0 < w" "sum_list row = 1" "i < length (gaussian_loop n [row] [replicate h (replicate w c)])"
  shows "gaussian_loop n [row] [replicate h (replicate w c)] ! i
         = replicate ((halve ^^ i) h) (replicate ((halve ^^ i) w) c)"
proof -
  let ?pyr = "gaussian_loop n [row] [replicate h (replicate w c)]"
  have "reduce_chain [row] ?pyr" by (intro gaussian_loop_chain reduce_chain_single) simp
  moreover have "?pyr ! 0 = replicate h (replicate w c)" by (simp add: gaussian_loop_prefix)
  ultimately show ?thesis using assms by (intro chain_const)
qed

text \<open>
  C10. \<^verbatim>\<open>reduce\<close> maps the constant \<open>h \<times> w\<close> image of value \<open>c\<close> to the constant image of
  value \<open>c\<close> and size \<open>(\<lceil>h / 2\<rceil>, \<lceil>w / 2\<rceil>)\<close> whenever the one-row kernel sums to 1.
  Then every level that the loop of \<^verbatim>\<open>build_gaussian_pyramid\<close> builds from a constant image
  is constant with the same value; so is every level of the pyramid that
  \<^verbatim>\<open>build_gaussian_pyramid\<close> returns for a filter size up to 63, whose kernel sums to 1.
\<close>

theorem reduce_preserves_constant:
  assumes "0 < h" "0 < w"
  shows "(sum_list row = 1 \<longrightarrow>
            reduce (replicate h (replicate w c)) [row]
            = replicate ((h + 1) div 2) (replicate ((w + 1) div 2) c) \<and>
            (\<forall>p \<in> set (gaussian_loop n [row] [replicate h (replicate w c)]).
               \<exists>h' w'. p = replicate h' (replicate w' c))) \<and>
         (filter_size \<le> 63 \<longrightarrow>
            (\<exists>pyr filter_vec.
               build_gaussian_pyramid (replicate h (replicate w c)) max_levels filter_size
                 = Inr (pyr, filter_vec) \<and>
               (\<forall>p \<in> set pyr. \<exists>h' w'. p = replicate h' (replicate w' c))))"
proof -
  have lev: "\<exists>h' w'. p = replicate h' (replicate w' c)"
    if "sum_list r = 1" "p \<in> set (gaussian_loop m [r] [replicate h (replicate w c)])" for r m p
  proof -
    from that(2) obtain i where "i < length (gaussian_loop m [r] [replicate h (replicate w c)])"
      "p = gaussian_loop m [r] [replicate h (replicate w c)] ! i"
      by (auto simp: in_set_conv_nth)
    then show ?thesis
      using gaussian_pyramid_const [OF assms that(1), of i] by blast
  qed
  have "reduce (replicate h (replicate w c)) [row]
            = replicate ((h + 1) div 2) (replicate ((w + 1) div 2) c)" if "sum_list row = 1"
    using assms that by (simp add: reduce_const)
  moreover have "\<exists>pyr filter_vec.
               build_gaussian_pyramid (replicate h (replicate w c)) max_levels filter_size
                 = Inr (pyr, filter_vec) \<and>
               (\<forall>p \<in> set pyr. \<exists>h' w'. p = replicate h' (replicate w' c))"
    if fs: "filter_size \<le> 63"
    using build_gaussian_pyramid_small [OF fs] lev [OF sum_kernel_row] by blast
  ultimately show ?thesis using lev by blast
qed

theorem reduce_preserves_constant_witness:
  "reduce (replicate 3 (replicate 5 7)) [[1 / 4, 1 / 2, 1 / 4]] = replicate 2 (replicate 3 7) \<and>
   (\<exists>pyr filter_vec.
      build_gaussian_pyramid (replicate 40 (replicate 40 (1 / 2))) 3 3 = Inr (pyr, filter_vec) \<and>
      (\<forall>p \<in> set pyr. \<exists>h' w'. p = replicate h' (replicate w' (1 / 2))))"
  using reduce_preserves_constant [of 3 5 "[1 / 4, 1 / 2, 1 / 4]" 7 0 3 3]
    reduce_preserves_constant [of 40 40 "[]" "1 / 2" 0 3 3]
  by simp

section \<open>Elementwise operations and comprehensions\<close>

lemma broadcast_dim_same: "broadcast_dim a a = Some a"
  by (simp add: broadcast_dim_def)

lemma broadcast_dim_differ: "a \<noteq> b \<Longrightarrow> 1 < a \<Longrightarrow> 1 < b \<Longrightarrow> broadcast_dim a b = None"
  unfolding broadcast_dim_def by auto

lemma rect_ncols_eq: "rect h w a \<Longrightarrow> rect h w b \<Longrightarrow> ncols a = ncols b"
  by (cases a; cases b) (auto simp: rect_def ncols_def)

lemma map2_rows_cong:
  assumes "length a = length b" "\<And>i. i < length a \<Longrightarrow> f (a ! i) (b ! i) = g (a ! i) (b ! i)"
  shows "map2 f a b = map2 g a b"
  using assms by (intro nth_equalityI) simp_all

lemma np_binop_same_shape:
  assumes "rect h w a" "rect h w b"
  shows "np_binop f a b = Inr (map2 (map2 f) a b)"
proof -
  have la: "length a = h" and lb: "length b = h" using assms by (simp_all add: rect_def)
  have nc: "ncols b = ncols a" using assms(2,1) by (rule rect_ncols_eq)
  have w: "ncols a = w" if "0 < h" using assms(1) that by (rule rect_ncols)
  have "map2 (\<lambda>r s. map2 f (stretch (ncols a) r) (stretch (ncols a) s)) a b = map2 (map2 f) a b"
  proof (rule map2_rows_cong)
    show "length a = length b" using la lb by simp
    fix i assume i: "i < length a"
    then have "0 < h" using la by simp
    then have "length (a ! i) = ncols a" "length (b ! i) = ncols a"
      using i la assms w by (simp_all add: rect_nth)
    then show "map2 f (stretch (ncols a) (a ! i)) (stretch (ncols a) (b ! i)) = map2 f (a ! i) (b ! i)"
      by (simp add: stretch_def)
  qed
  then show ?thesis
    using la lb nc by (simp add: np_binop_def broadcast_dim_same stretch_def)
qed

lemma np_binop_mismatch:
  assumes "rect h w a" "rect h' w' b" "1 < h" "1 < w" "1 < h'" "1 < w'" "h \<noteq> h' \<or> w \<noteq> w'"
  shows "np_binop f a b = Inl ValueError"
proof -
  have "length a = h" "length b = h'" "ncols a = w" "ncols b = w'"
    using assms by (simp_all add: rect_length rect_ncols)
  then show ?thesis
    using assms(3-7) by (auto simp: np_binop_def broadcast_dim_def)
qed

lemma np_binop_error: "np_binop f a b = Inl e \<Longrightarrow> e = ValueError"
  by (auto simp: np_binop_def split: option.splits)

lemma sequenceE_map_Inr:
  "\<forall>x \<in> set xs. g x = Inr (f x) \<Longrightarrow> sequenceE (map g xs) = Inr (map f xs)"
proof (induction xs)
  case Nil
  then show ?case by simp
next
  case (Cons x xs)
  then have "g x = Inr (f x)" "sequenceE (map g xs) = Inr (map f xs)" by simp_all
  then show ?case by (simp add: bindE_def)
qed

lemma sequenceE_ValueError:
  assumes "\<forall>r \<in> set rs. \<forall>e. r = Inl e \<longrightarrow> e = ValueError" "\<exists>r \<in> set rs. isl r"
  shows "sequenceE rs = Inl ValueError"
  using assms
proof (induction rs)
  case Nil
  then show ?case by simp
next
  case (Cons r rs)
  show ?case
  proof (cases r)
    case (Inl e)
    then have "e = ValueError" using Cons.prems(1) by simp
    then show ?thesis using Inl by (simp add: bindE_def)
  next
    case (Inr x)
    then have "\<exists>r \<in> set rs. isl r" using Cons.prems(2) by simp
    moreover have "\<forall>r \<in> set rs. \<forall>e. r = Inl e \<longrightarrow> e = ValueError" using Cons.prems(1) by simp
    ultimately have "sequenceE rs = Inl ValueError" by (rule Cons.IH [rotated])
    then show ?thesis using Inr by (simp add: bindE_def)
  qed
qed

lemma rect_map2:
  assumes "rect h w a" "rect h w b"
  shows "rect h w (map2 (map2 f) a b)"
  using assms by (intro rectI) (simp_all add: rect_length rect_nth)

lemma sub_add_cancel:
  assumes "rect h w a" "rect h w b"
  shows "map2 (map2 (\<lambda>x y. x + y)) (map2 (map2 (\<lambda>x y. x - y)) a b) b = (a :: image)"
proof (rule nth_equalityI)
  show "length (map2 (map2 (\<lambda>x y. x + y)) (map2 (map2 (\<lambda>x y. x - y)) a b) b) = length a"
    using assms by (simp add: rect_length)
next
  fix i assume "i < length (map2 (map2 (\<lambda>x y. x + y)) (map2 (map2 (\<lambda>x y. x - y)) a b) b)"
  then have i: "i < h" using assms by (simp add: rect_length)
  then have l: "length (a ! i) = w" "length (b ! i) = w" "length a = h" "length b = h"
    using assms by (simp_all add: rect_nth rect_length)
  show "map2 (map2 (\<lambda>x y. x + y)) (map2 (map2 (\<lambda>x y. x - y)) a b) b ! i = a ! i"
    using i l by (rule_tac nth_equalityI) simp_all
qed

lemma scalar_mul_one: "scalar_mul 1 im = im"
  by (simp add: scalar_mul_def map_idI)

lemma rect_scalar_mul: "rect h w im \<Longrightarrow> rect h w (scalar_mul c im)"
  by (auto simp: rect_def scalar_mul_def)

section \<open>The Laplacian pyramid\<close>

lemma build_gaussian_pyramid_Inr:
  assumes "build_gaussian_pyramid im max_levels filter_size = Inr (G, fv)"
  shows "G = gaussian_loop (nat (max_levels - 1)) fv [im]"
  using assms by (auto simp: build_gaussian_pyramid_def bindE_def split: sum.splits)

lemma gaussian_loop_facts:
  assumes "G = gaussian_loop n fv [im]"
  shows "G \<noteq> []" "reduce_chain fv G" "G ! 0 = im" "length G \<le> Suc n"
proof -
  show "G \<noteq> []" using assms by (simp add: gaussian_loop_nonempty)
  show "reduce_chain fv G" unfolding assms by (intro gaussian_loop_chain reduce_chain_single) simp
  show "G ! 0 = im" using assms by (simp add: gaussian_loop_prefix)
  show "length G \<le> Suc n" using gaussian_loop_length [of "[im]" n fv] assms by simp
qed

lemma level_shapes:
  assumes "reduce_chain fv G" "rect h w (G ! 0)" "Suc i < length G"
  shows "rect ((halve ^^ i) h) ((halve ^^ i) w) (G ! i)"
    and "rect (2 * halve ((halve ^^ i) h)) (2 * halve ((halve ^^ i) w)) (expand (G ! Suc i) fv)"
    and "16 < (halve ^^ i) h" and "16 < (halve ^^ i) w"
proof -
  have i: "i < length G" using assms(3) by simp
  show r: "rect ((halve ^^ i) h) ((halve ^^ i) w) (G ! i)"
    using assms(1,2) i by (rule chain_rect)
  have "rect ((halve ^^ Suc i) h) ((halve ^^ Suc i) w) (G ! Suc i)"
    using assms by (rule chain_rect)
  then show "rect (2 * halve ((halve ^^ i) h)) (2 * halve ((halve ^^ i) w)) (expand (G ! Suc i) fv)"
    by (simp add: rect_expand)
  have big: "MIN_IMG_SIZE < length (G ! i)" "MIN_IMG_SIZE < ncols (G ! i)"
    using assms(1,3) by (simp_all add: reduce_chain_def)
  then show h16: "16 < (halve ^^ i) h" using r by (simp add: rect_length MIN_IMG_SIZE_def)
  then have "0 < (halve ^^ i) h" by simp
  then have "ncols (G ! i) = (halve ^^ i) w" using r by (simp add: rect_ncols)
  then show "16 < (halve ^^ i) w" using big by (simp add: MIN_IMG_SIZE_def)
qed

lemma level_shape_eq:
  assumes "reduce_chain fv G" "rect h w (G ! 0)" "Suc i < length G"
  shows "shape (G ! i) = ((halve ^^ i) h, (halve ^^ i) w)"
  using level_shapes(1,3) [OF assms] by (simp add: shape_rect)

lemma even_halve: "even n \<Longrightarrow> 2 * halve n = n"
  by (auto simp: halve_def elim: evenE)

lemma odd_halve: "odd n \<Longrightarrow> 2 * halve n = Suc n"
  by (auto simp: halve_def elim: oddE)

lemma lap_level_even:
  assumes "reduce_chain fv G" "rect h w (G ! 0)" "Suc i < length G"
    "even ((halve ^^ i) h)" "even ((halve ^^ i) w)"
  shows "rect ((halve ^^ i) h) ((halve ^^ i) w) (expand (G ! Suc i) fv)"
    and "np_sub (G ! i) (expand (G ! Suc i) fv)
         = Inr (map2 (map2 (\<lambda>x y. x - y)) (G ! i) (expand (G ! Suc i) fv))"
proof -
  show r: "rect ((halve ^^ i) h) ((halve ^^ i) w) (expand (G ! Suc i) fv)"
    using level_shapes(2) [OF assms(1-3)] assms(4,5) by (simp add: even_halve)
  show "np_sub (G ! i) (expand (G ! Suc i) fv)
         = Inr (map2 (map2 (\<lambda>x y. x - y)) (G ! i) (expand (G ! Suc i) fv))"
    unfolding np_sub_def using level_shapes(1) [OF assms(1-3)] r by (rule np_binop_same_shape)
qed

lemma lap_level_odd:
  assumes "reduce_chain fv G" "rect h w (G ! 0)" "Suc i < length G"
    "odd ((halve ^^ i) h) \<or> odd ((halve ^^ i) w)"
  shows "np_sub (G ! i) (expand (G ! Suc i) fv) = Inl ValueError"
  unfolding np_sub_def
proof (rule np_binop_mismatch [OF level_shapes(1,2) [OF assms(1-3)]])
  show "1 < (halve ^^ i) h" "1 < (halve ^^ i) w"
    using level_shapes(3,4) [OF assms(1-3)] by simp_all
  then show "1 < 2 * halve ((halve ^^ i) h)" "1 < 2 * halve ((halve ^^ i) w)"
    by (simp_all add: halve_def)
  show "(halve ^^ i) h \<noteq> 2 * halve ((halve ^^ i) h) \<or> (halve ^^ i) w \<noteq> 2 * halve ((halve ^^ i) w)"
    using assms(4) by (auto simp: odd_halve)
qed

lemma build_laplacian_pyramid_unfold:
  assumes "build_gaussian_pyramid im max_levels filter_size = Inr (G, fv)"
  shows "build_laplacian_pyramid im max_levels filter_size =
         bindE (sequenceE (map (\<lambda>i. np_sub (G ! i) (expand (G ! (i + 1)) fv)) [0..<length G - 1]))
           (\<lambda>lap_pyr. Inr (lap_pyr @ [last G], fv))"
  using assms by (simp add: build_laplacian_pyramid_def bindE_def)

lemma build_laplacian_pyramid_even:
  assumes "build_gaussian_pyramid im max_levels filter_size = Inr (G, fv)" "rect h w im"
    "\<forall>i. Suc i < length G \<longrightarrow> even ((halve ^^ i) h) \<and> even ((halve ^^ i) w)"
  shows "\<exists>L. build_laplacian_pyramid im max_levels filter_size = Inr (L, fv) \<and> laplacian_of fv G L"
proof -
  let ?f = "\<lambda>i. map2 (map2 (\<lambda>x y. x - y)) (G ! i) (expand (G ! Suc i) fv)"
  let ?L = "map ?f [0..<length G - 1] @ [last G]"
  note facts = gaussian_loop_facts [OF build_gaussian_pyramid_Inr [OF assms(1)]]
  have r0: "rect h w (G ! 0)" using facts(3) assms(2) by simp
  have "\<forall>i \<in> set [0..<length G - 1]. np_sub (G ! i) (expand (G ! (i + 1)) fv) = Inr (?f i)"
    using lap_level_even(2) [OF facts(2) r0] assms(3) by simp
  then have "sequenceE (map (\<lambda>i. np_sub (G ! i) (expand (G ! (i + 1)) fv)) [0..<length G - 1])
             = Inr (map ?f [0..<length G - 1])"
    by (rule sequenceE_map_Inr)
  then have b: "build_laplacian_pyramid im max_levels filter_size = Inr (?L, fv)"
    by (simp add: build_laplacian_pyramid_unfold [OF assms(1)] bindE_def)
  have len: "length ?L = length G" using facts(1) by (cases G) simp_all
  have lev: "(\<exists>hh ww. rect hh ww (G ! i) \<and> rect hh ww (expand (G ! Suc i) fv)) \<and> ?L ! i = ?f i"
    if "Suc i < length G" for i
  proof -
    have "rect ((halve ^^ i) h) ((halve ^^ i) w) (G ! i)"
      using level_shapes(1) [OF facts(2) r0 that] .
    moreover have "rect ((halve ^^ i) h) ((halve ^^ i) w) (expand (G ! Suc i) fv)"
      using lap_level_even(1) [OF facts(2) r0 that] assms(3) that by simp
    moreover have "i < length G - 1" using that by simp
    then have "?L ! i = ?f i" by (simp add: nth_append)
    ultimately show ?thesis by blast
  qed
  have "laplacian_of fv G ?L"
    unfolding laplacian_of_def using facts(1) len lev by simp
  then show ?thesis using b by blast
qed

lemma build_laplacian_pyramid_odd:
  assumes "build_gaussian_pyramid im max_levels filter_size = Inr (G, fv)" "rect h w im"
    "\<exists>i. Suc i < length G \<and> (odd ((halve ^^ i) h) \<or> odd ((halve ^^ i) w))"
  shows "build_laplacian_pyramid im max_levels filter_size = Inl ValueError"
proof -
  let ?rs = "map (\<lambda>i. np_sub (G ! i) (expand (G ! (i + 1)) fv)) [0..<length G - 1]"
  note facts = gaussian_loop_facts [OF build_gaussian_pyramid_Inr [OF assms(1)]]
  have r0: "rect h w (G ! 0)" using facts(3) assms(2) by simp
  from assms(3) obtain i where i: "Suc i < length G" "odd ((halve ^^ i) h) \<or> odd ((halve ^^ i) w)"
    by blast
  have "np_sub (G ! i) (expand (G ! Suc i) fv) = Inl ValueError"
    using facts(2) r0 i by (rule lap_level_odd)
  moreover have "np_sub (G ! i) (expand (G ! Suc i) fv) \<in> set ?rs"
    using i(1) by (auto simp: image_iff intro!: bexI [of _ i])
  ultimately have ex: "\<exists>r \<in> set ?rs. isl r" by (metis sum.disc(1))
  have "\<forall>r \<in> set ?rs. \<forall>e. r = Inl e \<longrightarrow> e = ValueError"
    by (auto simp: np_sub_def dest: np_binop_error)
  then have "sequenceE ?rs = Inl ValueError" using ex by (rule sequenceE_ValueError)
  then show ?thesis by (simp add: build_laplacian_pyramid_unfold [OF assms(1)] bindE_def)
qed

section \<open>Reconstruction of a Laplacian pyramid\<close>

lemma get_gauss_laplacian_of:
  assumes "laplacian_of fv G L" "\<forall>i<length L. i < length coeff \<and> coeff ! i = 1"
  shows "n < length G \<Longrightarrow> get_gauss fv L coeff n = Inr (G ! n)"
proof (induction k \<equiv> "length G - Suc n" arbitrary: n)
  case 0
  then have n: "length G = Suc n" by simp
  have len: "length L = length G" "G \<noteq> []" "last L = last G"
    using assms(1) by (simp_all add: laplacian_of_def)
  then have "L \<noteq> []" by auto
  then have "last L = L ! n" "last G = G ! n"
    using len(1,2) n by (simp_all add: last_conv_nth)
  then have "L ! n = G ! n" using len(3) by simp
  moreover have "n < length coeff" "coeff ! n = 1" using assms(2) len n by simp_all
  moreover have "int n = int (length L) - 1" using len n by simp
  ultimately show ?case
    using n len by (subst get_gauss.simps) (simp add: nth_err_def bindE_def scalar_mul_one)
next
  case (Suc k)
  then have n: "Suc n < length G" by simp
  have len: "length L = length G" using assms(1) by (simp add: laplacian_of_def)
  from assms(1) n obtain hh ww where
    r: "rect hh ww (G ! n)" "rect hh ww (expand (G ! Suc n) fv)" and
    l: "L ! n = map2 (map2 (\<lambda>x y. x - y)) (G ! n) (expand (G ! Suc n) fv)"
    unfolding laplacian_of_def by blast
  have rec: "get_gauss fv L coeff (Suc n) = Inr (G ! Suc n)"
    using Suc.hyps(2) n by (intro Suc.hyps(1)) simp_all
  have c: "n < length coeff" "coeff ! n = 1" using assms(2) len n by simp_all
  have "rect hh ww (L ! n)" unfolding l using r by (rule rect_map2)
  then have "np_add (L ! n) (expand (G ! Suc n) fv)
             = Inr (map2 (map2 (\<lambda>x y. x + y)) (L ! n) (expand (G ! Suc n) fv))"
    unfolding np_add_def using r(2) by (rule np_binop_same_shape)
  also have "map2 (map2 (\<lambda>x y. x + y)) (L ! n) (expand (G ! Suc n) fv) = G ! n"
    unfolding l using r by (rule sub_add_cancel)
  finally have add: "np_add (L ! n) (expand (G ! Suc n) fv) = Inr (G ! n)" .
  have "int n \<noteq> int (length L) - 1" using n len by simp
  then show ?case
    using n len c rec add by (subst get_gauss.simps) (simp add: nth_err_def scalar_mul_one)
qed

lemma laplacian_to_image_roundtrip:
  assumes "laplacian_of fv G L" "\<forall>i<length L. i < length coeff \<and> coeff ! i = 1"
  shows "laplacian_to_image L fv coeff = Inr (G ! 0)"
proof -
  have "0 < length G" using assms(1) by (simp add: laplacian_of_def)
  then show ?thesis unfolding laplacian_to_image_def
    by (rule get_gauss_laplacian_of [OF assms])
qed

lemma halve_dvd:
  assumes "2 ^ k dvd h"
  shows "i \<le> k \<Longrightarrow> (halve ^^ i) h = h div 2 ^ i"
proof (induction i)
  case 0
  then show ?case by simp
next
  case (Suc i)
  then have "2 ^ Suc i dvd h" using assms by (meson power_le_dvd)
  then obtain m where m: "h = 2 ^ Suc i * m" by (auto elim: dvdE)
  then have "h div 2 ^ i = 2 * m" "h div 2 ^ Suc i = m" by simp_all
  then show ?case using Suc by (simp add: halve_def)
qed

lemma halve_dvd_even:
  assumes "2 ^ k dvd h" "i < k"
  shows "even ((halve ^^ i) h)"
proof -
  have "2 ^ Suc i dvd h" using assms by (meson Suc_leI power_le_dvd)
  then obtain m where m: "h = 2 ^ Suc i * m" by (auto elim: dvdE)
  then have "h div 2 ^ i = 2 * m" by simp
  then show ?thesis using halve_dvd [OF assms(1), of i] assms(2) by simp
qed

lemma build_laplacian_pyramid_dvd:
  assumes "rect h w im" "filter_size \<le> 63"
    "2 ^ nat (max_levels - 1) dvd h" "2 ^ nat (max_levels - 1) dvd w"
  shows "\<exists>G L fv. build_gaussian_pyramid im max_levels filter_size = Inr (G, fv) \<and>
           build_laplacian_pyramid im max_levels filter_size = Inr (L, fv) \<and>
           laplacian_of fv G L \<and> G ! 0 = im \<and> int (length G) \<le> max (1) max_levels"
proof -
  let ?fv = "[kernel_row (nat (filter_size - 1))]"
  let ?G = "gaussian_loop (nat (max_levels - 1)) ?fv [im]"
  have b: "build_gaussian_pyramid im max_levels filter_size = Inr (?G, ?fv)"
    using assms(2) by (rule build_gaussian_pyramid_small)
  have g: "?G = gaussian_loop (nat (max_levels - 1)) ?fv [im]" by (rule refl)
  note facts = gaussian_loop_facts [OF g]
  have "even ((halve ^^ i) h) \<and> even ((halve ^^ i) w)" if "Suc i < length ?G" for i
  proof -
    have "i < nat (max_levels - 1)" using that facts(4) by simp
    then show ?thesis using assms(3,4) by (simp add: halve_dvd_even)
  qed
  then obtain L where "build_laplacian_pyramid im max_levels filter_size = Inr (L, ?fv)"
    "laplacian_of ?fv ?G L"
    using build_laplacian_pyramid_even [OF b assms(1)] by blast
  moreover have "int (length ?G) \<le> max 1 max_levels" using facts(4) by simp
  ultimately show ?thesis using b facts(3) by blast
qed

lemma build_laplacian_pyramid_Inr:
  assumes "rect h w im" "build_laplacian_pyramid im max_levels filter_size = Inr (L, fv)"
  shows "\<exists>G. build_gaussian_pyramid im max_levels filter_size = Inr (G, fv) \<and>
           laplacian_of fv G L \<and> G ! 0 = im"
proof -
  from assms(2) obtain G fv' where b: "build_gaussian_pyramid im max_levels filter_size = Inr (G, fv')"
    by (auto simp: build_laplacian_pyramid_def bindE_def split: sum.splits)
  note facts = gaussian_loop_facts [OF build_gaussian_pyramid_Inr [OF b]]
  have ev: "\<forall>i. Suc i < length G \<longrightarrow> even ((halve ^^ i) h) \<and> even ((halve ^^ i) w)"
  proof (rule ccontr)
    assume "\<not> ?thesis"
    then have "\<exists>i. Suc i < length G \<and> (odd ((halve ^^ i) h) \<or> odd ((halve ^^ i) w))" by blast
    then have "build_laplacian_pyramid im max_levels filter_size = Inl ValueError"
      by (rule build_laplacian_pyramid_odd [OF b assms(1)])
    then show False using assms(2) by simp
  qed
  from build_laplacian_pyramid_even [OF b assms(1) ev] obtain L' where
    "build_laplacian_pyramid im max_levels filter_size = Inr (L', fv')" "laplacian_of fv' G L'"
    by blast
  then show ?thesis using assms(2) b facts(3) by auto
qed

lemma gaussian_loop_once:
  assumes "rect h w im" "16 < h" "16 < w" "h \<le> 32 \<or> w \<le> 32"
  shows "gaussian_loop (Suc n) fv [im] = [im, reduce im fv]"
proof -
  have s: "length im = h" "ncols im = w" using assms(1,2) by (simp_all add: rect_length rect_ncols)
  have r: "rect ((h + 1) div 2) ((w + 1) div 2) (reduce im fv)" using assms(1) by (rule rect_reduce)
  then have "length (reduce im fv) = (h + 1) div 2" "ncols (reduce im fv) = (w + 1) div 2"
    using assms(2) by (simp_all add: rect_length rect_ncols)
  then have "length (reduce im fv) \<le> 16 \<or> ncols (reduce im fv) \<le> 16" using assms(4) by arith
  then show ?thesis using s assms(2,3) by (cases n) (simp_all add: MIN_IMG_SIZE_def)
qed

lemma build_gaussian_pyramid_once:
  assumes "rect h w im" "16 < h" "16 < w" "h \<le> 32 \<or> w \<le> 32" "2 \<le> max_levels" "filter_size \<le> 63"
  shows "build_gaussian_pyramid im max_levels filter_size
         = Inr ([im, reduce im [kernel_row (nat (filter_size - 1))]], [kernel_row (nat (filter_size - 1))])"
proof -
  from assms(5) obtain n where "nat (max_levels - 1) = Suc n" by (cases "nat (max_levels - 1)") auto
  then show ?thesis
    using gaussian_loop_once [OF assms(1-4)] by (simp add: build_gaussian_pyramid_small [OF assms(6)])
qed

text \<open>
  C1. The claim: where the expansion of level \<open>i + 1\<close> does not have the shape of level
  \<open>i\<close>, it is cropped to its top-left part, so that \<^verbatim>\<open>build_laplacian_pyramid\<close> is defined
  for levels of odd height or width. The code does not crop. For a \<open>17 \<times> 17\<close> image and
  \<open>max_levels = 2\<close> the Gaussian levels are \<open>17 \<times> 17\<close> and \<open>9 \<times> 9\<close>, the expansion is
  \<open>18 \<times> 18\<close>, and the subtraction raises \<^verbatim>\<open>ValueError\<close>.
\<close>

theorem build_laplacian_pyramid_odd_counterexample:
  "build_laplacian_pyramid (replicate 17 (replicate 17 0)) 2 3 = Inl ValueError"
proof -
  let ?im = "replicate 17 (replicate 17 (0::real))"
  have r: "rect 17 17 ?im" by (simp add: rect_def)
  have b: "build_gaussian_pyramid ?im 2 3 = Inr ([?im, reduce ?im [kernel_row 2]], [kernel_row 2])"
    using build_gaussian_pyramid_once [OF r, of 2 3] by simp
  show ?thesis
    by (rule build_laplacian_pyramid_odd [OF b r]) (rule exI [of _ 0], simp)
qed

text \<open>
  C1 as amended. Let \<open>G\<close> be the Gaussian pyramid of a well-formed image. If every level of
  \<open>G\<close> but the last has even height and even width, the expansion of level \<open>i + 1\<close> has
  exactly the shape of level \<open>i\<close>, Laplacian level \<open>i\<close> is \<open>G[i]\<close> minus that expansion, and
  the final Laplacian level is the last Gaussian level unchanged. Nothing is cropped: if
  some level of \<open>G\<close> but the last has an odd height or width, \<^verbatim>\<open>build_laplacian_pyramid\<close>
  raises \<^verbatim>\<open>ValueError\<close>.
\<close>

theorem build_laplacian_pyramid_levels:
  assumes "rect h w im" "0 < h" "0 < w"
    "build_gaussian_pyramid im max_levels filter_size = Inr (gauss_pyr, filter_vec)"
  shows
    "((\<forall>i. Suc i < length gauss_pyr \<longrightarrow>
         even (fst (shape (gauss_pyr ! i))) \<and> even (snd (shape (gauss_pyr ! i)))) \<longrightarrow>
      (\<exists>lap_pyr.
         build_laplacian_pyramid im max_levels filter_size = Inr (lap_pyr, filter_vec) \<and>
         length lap_pyr = length gauss_pyr \<and>
         (\<forall>i. Suc i < length gauss_pyr \<longrightarrow>
            shape (expand (gauss_pyr ! Suc i) filter_vec) = shape (gauss_pyr ! i) \<and>
            lap_pyr ! i = map2 (map2 (\<lambda>x y. x - y)) (gauss_pyr ! i)
                            (expand (gauss_pyr ! Suc i) filter_vec)) \<and>
         last lap_pyr = last gauss_pyr)) \<and>
     ((\<exists>i. Suc i < length gauss_pyr \<and>
           (odd (fst (shape (gauss_pyr ! i))) \<or> odd (snd (shape (gauss_pyr ! i))))) \<longrightarrow>
      build_laplacian_pyramid im max_levels filter_size = Inl ValueError)"
proof (intro conjI impI)
  note facts = gaussian_loop_facts [OF build_gaussian_pyramid_Inr [OF assms(4)]]
  have r0: "rect h w (gauss_pyr ! 0)" using facts(3) assms(1) by simp
  note sh = level_shape_eq [OF facts(2) r0]
  {
    assume ev: "\<forall>i. Suc i < length gauss_pyr \<longrightarrow>
         even (fst (shape (gauss_pyr ! i))) \<and> even (snd (shape (gauss_pyr ! i)))"
    then have ev': "\<forall>i. Suc i < length gauss_pyr \<longrightarrow> even ((halve ^^ i) h) \<and> even ((halve ^^ i) w)"
      using sh by simp
    from build_laplacian_pyramid_even [OF assms(4,1) ev'] obtain L where
      L: "build_laplacian_pyramid im max_levels filter_size = Inr (L, filter_vec)"
         "laplacian_of filter_vec gauss_pyr L" by blast
    have "shape (expand (gauss_pyr ! Suc i) filter_vec) = shape (gauss_pyr ! i) \<and>
          L ! i = map2 (map2 (\<lambda>x y. x - y)) (gauss_pyr ! i) (expand (gauss_pyr ! Suc i) filter_vec)"
      if i: "Suc i < length gauss_pyr" for i
    proof -
      have pos: "0 < (halve ^^ i) h" using level_shapes(3) [OF facts(2) r0 i] by simp
      have "rect ((halve ^^ i) h) ((halve ^^ i) w) (expand (gauss_pyr ! Suc i) filter_vec)"
        using lap_level_even(1) [OF facts(2) r0 i] ev' i by simp
      then have "shape (expand (gauss_pyr ! Suc i) filter_vec) = ((halve ^^ i) h, (halve ^^ i) w)"
        using pos by (rule shape_rect)
      then show ?thesis using sh [OF i] L(2) i by (simp add: laplacian_of_def)
    qed
    then show "\<exists>lap_pyr.
         build_laplacian_pyramid im max_levels filter_size = Inr (lap_pyr, filter_vec) \<and>
         length lap_pyr = length gauss_pyr \<and>
         (\<forall>i. Suc i < length gauss_pyr \<longrightarrow>
            shape (expand (gauss_pyr ! Suc i) filter_vec) = shape (gauss_pyr ! i) \<and>
            lap_pyr ! i = map2 (map2 (\<lambda>x y. x - y)) (gauss_pyr ! i)
                            (expand (gauss_pyr ! Suc i) filter_vec)) \<and>
         last lap_pyr = last gauss_pyr"
      using L by (intro exI [of _ L]) (simp add: laplacian_of_def)
  }
  {
    assume "\<exists>i. Suc i < length gauss_pyr \<and>
           (odd (fst (shape (gauss_pyr ! i))) \<or> odd (snd (shape (gauss_pyr ! i))))"
    then have "\<exists>i. Suc i < length gauss_pyr \<and> (odd ((halve ^^ i) h) \<or> odd ((halve ^^ i) w))"
      using sh by auto
    then show "build_laplacian_pyramid im max_levels filter_size = Inl ValueError"
      by (rule build_laplacian_pyramid_odd [OF assms(4,1)])
  }
qed

theorem build_laplacian_pyramid_levels_witness:
  "(\<exists>lap_pyr filter_vec.
      build_laplacian_pyramid (replicate 32 (replicate 32 1)) 3 3 = Inr (lap_pyr, filter_vec) \<and>
      length lap_pyr = 2) \<and>
   build_laplacian_pyramid (replicate 33 (replicate 32 1)) 2 5 = Inl ValueError"
proof
  let ?im = "replicate 32 (replicate 32 (1::real))"
  let ?G = "[?im, reduce ?im [kernel_row 2]]"
  have r: "rect 32 32 ?im" by (simp add: rect_def)
  have b: "build_gaussian_pyramid ?im 3 3 = Inr (?G, [kernel_row 2])"
    using build_gaussian_pyramid_once [OF r, of 3 3] by simp
  have "\<forall>i. Suc i < length ?G \<longrightarrow> even (fst (shape (?G ! i))) \<and> even (snd (shape (?G ! i)))"
    using shape_rect [OF r] by simp
  with build_laplacian_pyramid_levels [OF r _ _ b]
  show "\<exists>lap_pyr filter_vec.
      build_laplacian_pyramid ?im 3 3 = Inr (lap_pyr, filter_vec) \<and> length lap_pyr = 2"
    by auto
next
  let ?im = "replicate 33 (replicate 32 (1::real))"
  let ?G = "[?im, reduce ?im [kernel_row 4]]"
  have r: "rect 33 32 ?im" by (simp add: rect_def)
  have b: "build_gaussian_pyramid ?im 2 5 = Inr (?G, [kernel_row 4])"
    using build_gaussian_pyramid_once [OF r, of 2 5] by simp
  have "\<exists>i. Suc i < length ?G \<and> (odd (fst (shape (?G ! i))) \<or> odd (snd (shape (?G ! i))))"
    using shape_rect [OF r] by (intro exI [of _ 0]) simp
  with build_laplacian_pyramid_levels [OF r _ _ b]
  show "build_laplacian_pyramid ?im 2 5 = Inl ValueError" by simp
qed

text \<open>
  The round trip. Whenever \<^verbatim>\<open>build_laplacian_pyramid\<close> returns a pyramid for a well-formed image,
  \<^verbatim>\<open>laplacian_to_image\<close> with the coefficients \<open>[1] * len(pyr)\<close> returns the image, sample by
  sample (exactly, in the exact arithmetic of the model); and it does return a pyramid when
  height and width are multiples of \<open>2 ^ (max_levels - 1)\<close> and the filter size is at
  most 63.
\<close>

lemma laplacian_roundtrip:
  assumes "rect h w im"
  shows "(build_laplacian_pyramid im max_levels filter_size = Inr (pyr, filter_vec) \<longrightarrow>
            laplacian_to_image pyr filter_vec (replicate (length pyr) 1) = Inr im) \<and>
         (filter_size \<le> 63 \<and> 2 ^ nat (max_levels - 1) dvd h \<and> 2 ^ nat (max_levels - 1) dvd w \<longrightarrow>
            (\<exists>lpyr fv. build_laplacian_pyramid im max_levels filter_size = Inr (lpyr, fv) \<and>
               laplacian_to_image lpyr fv (replicate (length lpyr) 1) = Inr im))"
proof -
  have rt: "laplacian_to_image L fv (replicate (length L) 1) = Inr im"
    if "build_laplacian_pyramid im max_levels filter_size = Inr (L, fv)" for L fv
  proof -
    from build_laplacian_pyramid_Inr [OF assms that] obtain G where
      "laplacian_of fv G L" "G ! 0 = im" by blast
    then show ?thesis
      using laplacian_to_image_roundtrip [of fv G L "replicate (length L) 1"] by simp
  qed
  moreover have "\<exists>lpyr fv. build_laplacian_pyramid im max_levels filter_size = Inr (lpyr, fv)"
    if "filter_size \<le> 63 \<and> 2 ^ nat (max_levels - 1) dvd h \<and> 2 ^ nat (max_levels - 1) dvd w"
    using build_laplacian_pyramid_dvd [OF assms, of filter_size max_levels] that by blast
  ultimately show ?thesis by blast
qed

lemma laplacian_roundtrip_example:
  "\<exists>lpyr fv.
     build_laplacian_pyramid (map (\<lambda>i. map (\<lambda>j. real (i * j)) [0..<32]) [0..<32]) 3 3 = Inr (lpyr, fv) \<and>
     laplacian_to_image lpyr fv (replicate (length lpyr) 1)
       = Inr (map (\<lambda>i. map (\<lambda>j. real (i * j)) [0..<32]) [0..<32])"
proof -
  have r: "rect 32 32 (map (\<lambda>i. map (\<lambda>j. real (i * j)) [0..<32]) [0..<32])"
    by (simp add: rect_def)
  have d: "(2::nat) ^ nat (3 - 1) dvd 32" by simp
  show ?thesis using laplacian_roundtrip [OF r, of 3 3] d by simp
qed

lemma build_laplacian_pyramid_big:
  "65 \<le> filter_size \<Longrightarrow> build_laplacian_pyramid im max_levels filter_size = Inl NonFinite"
  by (simp add: build_laplacian_pyramid_def build_gaussian_pyramid_def get_filer_row_big bindE_def)

text \<open>
  C2. The claim: for every image whose dimensions are compatible with repeated halving,
  every \<open>max_levels \<ge> 1\<close> and every odd filter size, reconstructing the Laplacian pyramid with
  the coefficients \<open>[1] * len(pyr)\<close> gives back the image. For a \<open>32 \<times> 32\<close> image of value
  \<open>1 / 2\<close>, \<open>max_levels = 2\<close> and the odd filter size 65 it does not: the integer sum of the
  kernel's row has wrapped to 0, the kernel is not finite, and neither are the levels of the
  pyramid computed with it nor the image reconstructed from them.
\<close>

theorem laplacian_roundtrip_65:
  "bindE (build_laplacian_pyramid (replicate 32 (replicate 32 (1 / 2))) 2 65)
     (\<lambda>(pyr, filter_vec). laplacian_to_image pyr filter_vec (replicate (length pyr) 1))
   = Inl NonFinite"
  by (simp add: build_laplacian_pyramid_big bindE_def)

section \<open>The coefficient list\<close>

lemma get_gauss_short_coeff:
  assumes "length coeff < length lpyr"
  shows "n \<le> length coeff \<Longrightarrow> get_gauss fv lpyr coeff n = Inl IndexError"
proof (induction k \<equiv> "length coeff - n" arbitrary: n)
  case 0
  then have n: "n = length coeff" by simp
  show ?case using assms unfolding n
    by (subst get_gauss.simps) (simp add: nth_err_def bindE_def)
next
  case (Suc k)
  then have n: "n < length coeff" by simp
  then have "get_gauss fv lpyr coeff (Suc n) = Inl IndexError"
    using Suc.hyps(2) by (intro Suc.hyps(1)) simp_all
  moreover have "int n \<noteq> int (length lpyr) - 1" using n assms by simp
  ultimately show ?case using n assms
    by (subst get_gauss.simps) (simp add: nth_err_def)
qed

lemma get_gauss_coeff_cong:
  assumes "\<forall>i<length lpyr. nth_err c i = nth_err c' i"
  shows "get_gauss fv lpyr c n = get_gauss fv lpyr c' n"
proof (induction k \<equiv> "length lpyr - n" arbitrary: n)
  case 0
  then have "length lpyr \<le> n" by simp
  then have "get_gauss fv lpyr cc n = Inl IndexError" for cc
    by (subst get_gauss.simps) (simp add: nth_err_def)
  then show ?case by simp
next
  case (Suc k)
  then have n: "n < length lpyr" by simp
  have rec: "get_gauss fv lpyr c (n + 1) = get_gauss fv lpyr c' (n + 1)"
    using Suc.hyps(2) by (intro Suc.hyps(1)) simp
  have c: "nth_err c n = nth_err c' n" using assms n by simp
  show ?case
    by (subst get_gauss.simps, subst (2) get_gauss.simps) (simp only: rec c)
qed

lemma get_gauss_no_IndexError:
  assumes "length lpyr \<le> length coeff"
  shows "n < length lpyr \<Longrightarrow> get_gauss fv lpyr coeff n \<noteq> Inl IndexError"
proof (induction k \<equiv> "length lpyr - Suc n" arbitrary: n)
  case 0
  then have "int n = int (length lpyr) - 1" "n < length coeff" using assms by simp_all
  then show ?case using 0
    by (subst get_gauss.simps) (simp add: nth_err_def bindE_def)
next
  case (Suc k)
  then have n: "Suc n < length lpyr" by simp
  then have rec: "get_gauss fv lpyr coeff (Suc n) \<noteq> Inl IndexError"
    using Suc.hyps(2) by (intro Suc.hyps(1)) simp_all
  have f: "int n \<noteq> int (length lpyr) - 1" "nth_err coeff n = Inr (coeff ! n)"
    "nth_err lpyr n = Inr (lpyr ! n)"
    using n assms by (simp_all add: nth_err_def)
  have add: "np_add a b \<noteq> Inl IndexError" for a b
    using np_binop_error [of "\<lambda>x y. x + y" a b IndexError] by (auto simp: np_add_def)
  show ?case
  proof (cases "get_gauss fv lpyr coeff (Suc n)")
    case (Inl e)
    then have "get_gauss fv lpyr coeff n = Inl e"
      using f by (subst get_gauss.simps) simp
    then show ?thesis using rec Inl by simp
  next
    case (Inr g)
    then have "get_gauss fv lpyr coeff n = np_add (scalar_mul (coeff ! n) (lpyr ! n)) (expand g fv)"
      using f by (subst get_gauss.simps) simp
    then show ?thesis using add by simp
  qed
qed

text \<open>
  C5. The claim: \<^verbatim>\<open>laplacian_to_image\<close> fails with \<open>DimensionMismatch\<close> whenever the
  coefficient list and the pyramid differ in length, and accepts the list if and only if
  the lengths are equal. A pyramid of one level with two coefficients is accepted.
\<close>

theorem laplacian_to_image_long_coeff_counterexample:
  "laplacian_to_image [[[1]]] [[1]] [1, 1] = Inr [[1]]"
  unfolding laplacian_to_image_def
  by (subst get_gauss.simps) (simp add: nth_err_def bindE_def scalar_mul_def)

text \<open>
  C5 as amended. A coefficient list shorter than the pyramid raises \<^verbatim>\<open>IndexError\<close>. A list
  at least as long as the pyramid is accepted: the entries beyond the length of the pyramid
  are ignored, and for a pyramid that is not empty no \<^verbatim>\<open>IndexError\<close> is raised.
\<close>

theorem laplacian_to_image_coeff_length:
  "(length coeff < length lpyr \<longrightarrow> laplacian_to_image lpyr filter_vec coeff = Inl IndexError) \<and>
   (length lpyr \<le> length coeff \<longrightarrow>
      laplacian_to_image lpyr filter_vec coeff
        = laplacian_to_image lpyr filter_vec (take (length lpyr) coeff) \<and>
      (lpyr \<noteq> [] \<longrightarrow> laplacian_to_image lpyr filter_vec coeff \<noteq> Inl IndexError))"
proof (intro conjI impI)
  assume "length coeff < length lpyr"
  then show "laplacian_to_image lpyr filter_vec coeff = Inl IndexError"
    unfolding laplacian_to_image_def by (rule get_gauss_short_coeff) simp
next
  assume "length lpyr \<le> length coeff"
  then have "\<forall>i<length lpyr. nth_err coeff i = nth_err (take (length lpyr) coeff) i"
    by (simp add: nth_err_def)
  then show "laplacian_to_image lpyr filter_vec coeff
        = laplacian_to_image lpyr filter_vec (take (length lpyr) coeff)"
    unfolding laplacian_to_image_def by (rule get_gauss_coeff_cong)
next
  assume "length lpyr \<le> length coeff" "lpyr \<noteq> []"
  then show "laplacian_to_image lpyr filter_vec coeff \<noteq> Inl IndexError"
    unfolding laplacian_to_image_def by (intro get_gauss_no_IndexError) simp_all
qed

theorem laplacian_to_image_coeff_length_witness:
  "laplacian_to_image [[[1, 2], [3, 4]], [[5]]] [[1 / 4, 1 / 2, 1 / 4]] [1] = Inl IndexError \<and>
   laplacian_to_image [[[1, 2], [3, 4]], [[5]]] [[1 / 4, 1 / 2, 1 / 4]] [1, 1, 7]
     = laplacian_to_image [[[1, 2], [3, 4]], [[5]]] [[1 / 4, 1 / 2, 1 / 4]] [1, 1] \<and>
   laplacian_to_image [[[1, 2], [3, 4]], [[5]]] [[1 / 4, 1 / 2, 1 / 4]] [1, 1, 7] \<noteq> Inl IndexError"
proof -
  let ?l = "[[[1, 2], [3, 4]], [[5]]] :: image list" and ?f = "[[1 / 4, 1 / 2, 1 / 4]] :: image"
  have "laplacian_to_image ?l ?f [1] = Inl IndexError"
    using laplacian_to_image_coeff_length [of "[1]" ?l ?f] by simp
  moreover have "laplacian_to_image ?l ?f [1, 1, 7] = laplacian_to_image ?l ?f [1, 1]"
    using laplacian_to_image_coeff_length [of "[1, 1, 7]" ?l ?f] by simp
  moreover have "laplacian_to_image ?l ?f [1, 1, 7] \<noteq> Inl IndexError"
    using laplacian_to_image_coeff_length [of "[1, 1, 7]" ?l ?f] by auto
  ultimately show ?thesis by (intro conjI)
qed

section \<open>Recursion depth of the reconstruction\<close>

lemma get_gauss_last:
  assumes "length lpyr = Suc n"
  shows "get_gauss fv lpyr coeff n = bindE (nth_err coeff n) (\<lambda>c. Inr (scalar_mul c (lpyr ! n)))"
proof -
  have "int n = int (length lpyr) - 1" "nth_err lpyr n = Inr (lpyr ! n)"
    using assms by (simp_all add: nth_err_def)
  then show ?thesis
    using get_gauss.simps [of fv lpyr coeff n] by (simp add: bindE_def split: sum.splits)
qed

lemma get_gauss_step:
  assumes "Suc n < length lpyr"
  shows "get_gauss fv lpyr coeff n =
         bindE (nth_err coeff n) (\<lambda>c. bindE (get_gauss fv lpyr coeff (Suc n))
           (\<lambda>g. np_add (scalar_mul c (lpyr ! n)) (expand g fv)))"
proof -
  have "int n \<noteq> int (length lpyr) - 1" "nth_err lpyr n = Inr (lpyr ! n)"
    using assms by (simp_all add: nth_err_def)
  then show ?thesis
    using get_gauss.simps [of fv lpyr coeff n] by (simp add: bindE_def split: sum.splits)
qed

lemma get_gauss_depth_last:
  assumes "length lpyr = Suc n"
  shows "get_gauss_depth k (Suc d) fv lpyr coeff n
         = bindE (nth_err coeff n) (\<lambda>c. Inr (scalar_mul c (lpyr ! n)))"
proof -
  have "int n = int (length lpyr) - 1" "nth_err lpyr n = Inr (lpyr ! n)"
    using assms by (simp_all add: nth_err_def)
  then show ?thesis by (simp add: bindE_def)
qed

lemma get_gauss_depth_step:
  assumes "Suc n < length lpyr"
  shows "get_gauss_depth k (Suc d) fv lpyr coeff n =
         bindE (nth_err coeff n) (\<lambda>c. bindE (get_gauss_depth k d fv lpyr coeff (Suc n))
           (\<lambda>g. if d < k then Inl RecursionError
                else np_add (scalar_mul c (lpyr ! n)) (expand g fv)))"
proof -
  have "int n \<noteq> int (length lpyr) - 1" "nth_err lpyr n = Inr (lpyr ! n)"
    using assms by (simp_all add: nth_err_def)
  then show ?thesis by (simp add: bindE_def split: sum.splits)
qed

lemma get_gauss_depth_enough:
  "n < length lpyr \<Longrightarrow> length lpyr - n \<le> d \<Longrightarrow>
   (Suc n < length lpyr \<Longrightarrow> length lpyr - Suc n + k \<le> d) \<Longrightarrow>
   get_gauss_depth k d fv lpyr coeff n = get_gauss fv lpyr coeff n"
proof (induction d arbitrary: n)
  case 0
  then show ?case by simp
next
  case (Suc d)
  show ?case
  proof (cases "Suc n < length lpyr")
    case True
    have "get_gauss_depth k d fv lpyr coeff (Suc n) = get_gauss fv lpyr coeff (Suc n)"
    proof (rule Suc.IH)
      show "Suc n < length lpyr" by (rule True)
      show "length lpyr - Suc n \<le> d" using Suc.prems(2) True by simp
      show "length lpyr - Suc (Suc n) + k \<le> d" using Suc.prems(3) [OF True] True by simp
    qed
    moreover have "\<not> d < k" using Suc.prems(3) [OF True] True by simp
    ultimately show ?thesis
      by (simp only: get_gauss_depth_step [OF True] get_gauss_step [OF True] if_False)
  next
    case False
    then have l: "length lpyr = Suc n" using Suc.prems(1) by simp
    show ?thesis by (simp only: get_gauss_depth_last [OF l] get_gauss_last [OF l])
  qed
qed

lemma get_gauss_depth_exceeded:
  "n + d < length lpyr \<Longrightarrow> n + d \<le> length coeff \<Longrightarrow>
   get_gauss_depth k d fv lpyr coeff n = Inl RecursionError"
proof (induction d arbitrary: n)
  case 0
  then show ?case by simp
next
  case (Suc d)
  then have rec: "get_gauss_depth k d fv lpyr coeff (Suc n) = Inl RecursionError"
    by (intro Suc.IH) simp_all
  have n: "Suc n < length lpyr" "nth_err coeff n = Inr (coeff ! n)"
    using Suc.prems by (simp_all add: nth_err_def)
  show ?case by (simp only: get_gauss_depth_step [OF n(1)] n(2) rec) (simp add: bindE_def)
qed

lemma get_gauss_depth_expand_exceeded:
  "Suc n < length lpyr \<Longrightarrow> length lpyr \<le> length coeff \<Longrightarrow> d < length lpyr - Suc n + k \<Longrightarrow>
   get_gauss_depth k d fv lpyr coeff n = Inl RecursionError"
proof (induction d arbitrary: n)
  case 0
  then show ?case by simp
next
  case (Suc d)
  have c: "nth_err coeff n = Inr (coeff ! n)" "nth_err coeff (Suc n) = Inr (coeff ! Suc n)"
    using Suc.prems(1,2) by (simp_all add: nth_err_def)
  show ?case
  proof (cases "Suc (Suc n) < length lpyr")
    case True
    then have "get_gauss_depth k d fv lpyr coeff (Suc n) = Inl RecursionError"
      using Suc.prems by (intro Suc.IH) simp_all
    then show ?thesis
      by (simp only: get_gauss_depth_step [OF Suc.prems(1)] c) (simp add: bindE_def)
  next
    case False
    then have l: "length lpyr = Suc (Suc n)" using Suc.prems(1) by simp
    then have dk: "d < k" using Suc.prems(3) by simp
    show ?thesis
    proof (cases d)
      case 0
      then show ?thesis
        by (simp only: get_gauss_depth_step [OF Suc.prems(1)] c) (simp add: bindE_def)
    next
      case (Suc d')
      have "get_gauss_depth k (Suc d') fv lpyr coeff (Suc n)
            = Inr (scalar_mul (coeff ! Suc n) (lpyr ! Suc n))"
        unfolding get_gauss_depth_last [OF l] c by (simp add: bindE_def)
      then show ?thesis using dk unfolding Suc
        by (simp only: get_gauss_depth_step [OF Suc.prems(1)] c) (simp add: bindE_def)
    qed
  qed
qed

lemma get_gauss_foldr:
  assumes "length lpyr \<le> length coeff"
  shows "n < length lpyr \<Longrightarrow>
    get_gauss fv lpyr coeff n =
    foldr (\<lambda>i acc. bindE acc (\<lambda>a. np_add (scalar_mul (coeff ! i) (lpyr ! i)) (expand a fv)))
      [n..<length lpyr - 1]
      (Inr (scalar_mul (coeff ! (length lpyr - 1)) (lpyr ! (length lpyr - 1))))"
proof (induction k \<equiv> "length lpyr - Suc n" arbitrary: n)
  case 0
  then have l: "length lpyr = Suc n" by simp
  then have c: "nth_err coeff n = Inr (coeff ! n)" using assms by (simp add: nth_err_def)
  have "get_gauss fv lpyr coeff n = Inr (scalar_mul (coeff ! n) (lpyr ! n))"
    unfolding get_gauss_last [OF l] c by (simp add: bindE_def)
  then show ?case by (simp add: l)
next
  case (Suc k)
  then have n: "Suc n < length lpyr" by simp
  then have rec: "get_gauss fv lpyr coeff (Suc n) =
    foldr (\<lambda>i acc. bindE acc (\<lambda>a. np_add (scalar_mul (coeff ! i) (lpyr ! i)) (expand a fv)))
      [Suc n..<length lpyr - 1]
      (Inr (scalar_mul (coeff ! (length lpyr - 1)) (lpyr ! (length lpyr - 1))))"
    using Suc.hyps(2) Suc.hyps(1) [of "Suc n"] by simp
  have c: "nth_err coeff n = Inr (coeff ! n)" using n assms by (simp add: nth_err_def)
  have u: "[n..<length lpyr - 1] = n # [Suc n..<length lpyr - 1]"
    using n by (intro upt_conv_Cons) simp
  show ?case
    unfolding u get_gauss_step [OF n] c rec by (simp add: bindE_def)
qed

lemma laplacian_to_image_accumulate:
  assumes "lpyr \<noteq> []" "length lpyr \<le> length coeff"
  shows "laplacian_to_image lpyr fv coeff = accumulate_levels lpyr fv coeff"
  using assms get_gauss_foldr [OF assms(2), of 0 fv]
  by (simp add: laplacian_to_image_def accumulate_levels_def foldr_conv_fold)

text \<open>
  C8. The claim: the reconstruction is an iterative accumulation, not a recursion with one
  call per level, so that it does not reach the limit of the call stack. \<^verbatim>\<open>_get_gauss\<close>
  calls itself once per level: with 1000 nested calls left (Python's default limit) a
  pyramid of 1001 levels raises \<^verbatim>\<open>RecursionError\<close>, however few calls \<^verbatim>\<open>expand\<close> needs.
\<close>

theorem laplacian_to_image_depth_counterexample:
  "laplacian_to_image_depth 2 1000 (replicate 1001 [[1]]) [[1 / 4, 1 / 2, 1 / 4]] (replicate 1001 1)
   = Inl RecursionError"
  unfolding laplacian_to_image_depth_def by (rule get_gauss_depth_exceeded) simp_all

text \<open>
  C8 as amended. The reconstruction recurses once per level, from level 0 down to the last,
  and calls \<^verbatim>\<open>expand\<close> after each call of itself has returned. For a pyramid that is not
  empty and a coefficient list at least as long, with \<open>d\<close> nested calls left and
  \<open>expand_frames\<close> the number one call of \<^verbatim>\<open>expand\<close> needs: it raises \<^verbatim>\<open>RecursionError\<close> if
  \<open>d\<close> is less than the number of levels, and also, for two levels or more, if \<open>d\<close> is less
  than the number of levels but one plus \<open>expand_frames\<close>; in every other case, and in the
  model without a limit, its result is that of the accumulation from the last level to the
  first, \<open>acc = L[n-1] \<cdot> c[n-1]\<close> and then \<open>acc = L[i] \<cdot> c[i] + Expand(acc)\<close>.
\<close>

theorem laplacian_to_image_recursive:
  assumes "lpyr \<noteq> []" "length lpyr \<le> length coeff"
  shows "(d < length lpyr \<or> (2 \<le> length lpyr \<and> d < length lpyr - 1 + expand_frames) \<longrightarrow>
            laplacian_to_image_depth expand_frames d lpyr filter_vec coeff = Inl RecursionError) \<and>
         (length lpyr \<le> d \<and> (2 \<le> length lpyr \<longrightarrow> length lpyr - 1 + expand_frames \<le> d) \<longrightarrow>
            laplacian_to_image_depth expand_frames d lpyr filter_vec coeff
              = accumulate_levels lpyr filter_vec coeff) \<and>
         laplacian_to_image lpyr filter_vec coeff = accumulate_levels lpyr filter_vec coeff"
proof (intro conjI impI)
  assume "d < length lpyr \<or> (2 \<le> length lpyr \<and> d < length lpyr - 1 + expand_frames)"
  then show "laplacian_to_image_depth expand_frames d lpyr filter_vec coeff = Inl RecursionError"
  proof
    assume "d < length lpyr"
    then show ?thesis
      unfolding laplacian_to_image_depth_def using assms(2)
      by (intro get_gauss_depth_exceeded) simp_all
  next
    assume b: "2 \<le> length lpyr \<and> d < length lpyr - 1 + expand_frames"
    have "get_gauss_depth expand_frames d filter_vec lpyr coeff 0 = Inl RecursionError"
    proof (rule get_gauss_depth_expand_exceeded)
      show "Suc 0 < length lpyr" using b by simp
      show "length lpyr \<le> length coeff" by (rule assms(2))
      show "d < length lpyr - Suc 0 + expand_frames" using b by arith
    qed
    then show ?thesis by (simp add: laplacian_to_image_depth_def)
  qed
next
  show acc: "laplacian_to_image lpyr filter_vec coeff = accumulate_levels lpyr filter_vec coeff"
    using assms by (rule laplacian_to_image_accumulate)
  assume d: "length lpyr \<le> d \<and> (2 \<le> length lpyr \<longrightarrow> length lpyr - 1 + expand_frames \<le> d)"
  have "get_gauss_depth expand_frames d filter_vec lpyr coeff 0 = get_gauss filter_vec lpyr coeff 0"
  proof (rule get_gauss_depth_enough)
    show "0 < length lpyr" using assms(1) by simp
    show "length lpyr - 0 \<le> d" using d by simp
    show "length lpyr - Suc 0 + expand_frames \<le> d" if "Suc 0 < length lpyr"
      using d that by simp
  qed
  then show "laplacian_to_image_depth expand_frames d lpyr filter_vec coeff
              = accumulate_levels lpyr filter_vec coeff"
    using acc by (simp add: laplacian_to_image_depth_def laplacian_to_image_def)
qed

theorem laplacian_to_image_recursive_witness:
  "laplacian_to_image_depth 20 1 [[[1, 2], [3, 4]], [[5]]] [[1 / 4, 1 / 2, 1 / 4]] [1, 1]
     = Inl RecursionError \<and>
   laplacian_to_image_depth 20 21 [[[1, 2], [3, 4]], [[5]]] [[1 / 4, 1 / 2, 1 / 4]] [1, 1]
     = accumulate_levels [[[1, 2], [3, 4]], [[5]]] [[1 / 4, 1 / 2, 1 / 4]] [1, 1] \<and>
   laplacian_to_image [[[1, 2], [3, 4]], [[5]]] [[1 / 4, 1 / 2, 1 / 4]] [1, 1]
     = accumulate_levels [[[1, 2], [3, 4]], [[5]]] [[1 / 4, 1 / 2, 1 / 4]] [1, 1]"
proof -
  let ?l = "[[[1, 2], [3, 4]], [[5]]] :: image list" and ?f = "[[1 / 4, 1 / 2, 1 / 4]] :: image"
  have a: "?l \<noteq> []" "length ?l \<le> length [1, 1 :: real]" by simp_all
  show ?thesis
    using laplacian_to_image_recursive [OF a, of 1 20 ?f]
      laplacian_to_image_recursive [OF a, of 21 20 ?f]
    by simp
qed

section \<open>Rendering a pyramid\<close>

lemma stretch_image_Inr:
  assumes "stretch_image im = Inr s"
  shows "Min (set (concat im)) < Max (set (concat im))"
proof -
  have ne: "concat im \<noteq> []" and d: "Max (set (concat im)) - Min (set (concat im)) \<noteq> 0"
    using assms by (auto simp: stretch_image_def Let_def split: if_splits)
  have "Min (set (concat im)) \<in> set (concat im)"
    using ne by (intro Min_in) simp_all
  then have "Min (set (concat im)) \<le> Max (set (concat im))"
    by (intro Max_ge) simp_all
  then show ?thesis using d by simp
qed

lemma set_concat_replicate:
  "0 < h \<Longrightarrow> 0 < w \<Longrightarrow> set (concat (replicate h (replicate w c))) = {c}"
  by auto

lemma stretch_image_const:
  assumes "0 < h" "0 < w"
  shows "stretch_image (replicate h (replicate w c)) = Inl NonFinite"
proof -
  have "set (concat (replicate h (replicate w c))) = {c}"
    using assms by (rule set_concat_replicate)
  moreover from this have "concat (replicate h (replicate w c)) \<noteq> []" by force
  ultimately show ?thesis by (simp add: stretch_image_def)
qed

lemma render_loop_Inr:
  "render_loop pyr [a..<b] res = Inr r \<Longrightarrow> a \<le> i \<Longrightarrow> i < b \<Longrightarrow> i < length pyr \<Longrightarrow>
   \<exists>s. stretch_image (pyr ! i) = Inr s"
proof (induction k \<equiv> "b - a" arbitrary: a res)
  case 0
  then show ?case by simp
next
  case (Suc k)
  then have u: "[a..<b] = a # [Suc a..<b]" by (intro upt_conv_Cons) simp
  have a: "a < length pyr" using Suc.prems(2,4) by simp
  then have na: "nth_err pyr a = Inr (pyr ! a)" "a \<noteq> length pyr" by (simp_all add: nth_err_def)
  from Suc.prems(1) obtain s where s: "stretch_image (pyr ! a) = Inr s"
    unfolding u by (cases "stretch_image (pyr ! a)") (simp_all add: na bindE_def)
  show ?case
  proof (cases "i = a")
    case True
    then show ?thesis using s by blast
  next
    case False
    let ?res = "map2 (\<lambda>r s. r @ s) res
                 (s @ replicate (length res - length s) (replicate (ncols s) 0))"
    have "render_loop pyr [Suc a..<b] ?res = Inr r"
      using Suc.prems(1) unfolding u by (simp add: na s bindE_def split: if_splits)
    moreover have "k = b - Suc a" using Suc.hyps(2) by simp
    moreover have "Suc a \<le> i" using False Suc.prems(2) by simp
    ultimately show ?thesis using Suc.prems(3,4) Suc.hyps(1) [of "Suc a" ?res] by blast
  qed
qed

lemma render_pyramid_Inr:
  assumes "1 \<le> levels" "render_pyramid pyr levels = Inr res" "i < length pyr" "int i < levels"
  shows "Min (set (concat (pyr ! i))) < Max (set (concat (pyr ! i)))"
proof -
  have "0 < length pyr" using assms(3) by (cases pyr) simp_all
  then have p: "nth_err pyr 0 = Inr (pyr ! 0)" by (simp add: nth_err_def)
  from assms(1,2) obtain s where s: "stretch_image (pyr ! 0) = Inr s"
    and l: "render_loop pyr [1..<nat levels] s = Inr res"
    by (cases "stretch_image (pyr ! 0)") (simp_all add: render_pyramid_def p bindE_def)
  show ?thesis
  proof (cases "i = 0")
    case True
    then show ?thesis using s stretch_image_Inr by blast
  next
    case False
    then have "1 \<le> i" "i < nat levels" using assms(4) by simp_all
    with l assms(3) obtain t where "stretch_image (pyr ! i) = Inr t"
      using render_loop_Inr by blast
    then show ?thesis by (rule stretch_image_Inr)
  qed
qed

lemma render_pyramid_const_first:
  assumes "1 \<le> levels" "pyr \<noteq> []" "pyr ! 0 = replicate h (replicate w c)" "0 < h" "0 < w"
  shows "render_pyramid pyr levels = Inl NonFinite"
  using assms by (simp add: render_pyramid_def nth_err_def bindE_def stretch_image_const)

text \<open>
  C9. \<^verbatim>\<open>_stretch_image\<close> divides by \<open>max - min\<close> without a guard. For \<open>levels \<ge> 1\<close>:
  if \<^verbatim>\<open>render_pyramid\<close> returns an image, every rendered level (index below \<open>levels\<close> and
  below the length of the pyramid) has its maximum strictly above its minimum; and if a
  rendered level is constant, its stretch divides by zero and \<^verbatim>\<open>render_pyramid\<close> returns no
  image, the outcome being that division when the level is the first.
\<close>

theorem render_pyramid_constant_level:
  assumes "1 \<le> levels"
  shows "(\<forall>res. render_pyramid pyr levels = Inr res \<longrightarrow>
            (\<forall>i. i < length pyr \<and> int i < levels \<longrightarrow>
               Min (set (concat (pyr ! i))) < Max (set (concat (pyr ! i))))) \<and>
         (\<forall>i h w c. i < length pyr \<and> int i < levels \<and> 0 < h \<and> 0 < w \<and>
               pyr ! i = replicate h (replicate w c) \<longrightarrow>
               isl (render_pyramid pyr levels) \<and>
               stretch_image (pyr ! i) = Inl NonFinite \<and>
               (i = 0 \<longrightarrow> render_pyramid pyr levels = Inl NonFinite))"
proof (intro conjI allI impI)
  fix res i
  assume "render_pyramid pyr levels = Inr res" "i < length pyr \<and> int i < levels"
  then show "Min (set (concat (pyr ! i))) < Max (set (concat (pyr ! i)))"
    using render_pyramid_Inr [OF assms] by blast
next
  fix i h w c
  assume a: "i < length pyr \<and> int i < levels \<and> 0 < h \<and> 0 < w \<and>
             pyr ! i = replicate h (replicate w c)"
  then have st: "stretch_image (pyr ! i) = Inl NonFinite" by (simp add: stretch_image_const)
  show "isl (render_pyramid pyr levels)"
  proof (cases "render_pyramid pyr levels")
    case (Inl e)
    then show ?thesis by simp
  next
    case (Inr res)
    then have "Min (set (concat (pyr ! i))) < Max (set (concat (pyr ! i)))"
      using render_pyramid_Inr [OF assms] a by blast
    then show ?thesis using a by (simp add: set_concat_replicate)
  qed
  show "stretch_image (pyr ! i) = Inl NonFinite" by (rule st)
  {
    assume "i = 0"
    then show "render_pyramid pyr levels = Inl NonFinite"
      using a by (intro render_pyramid_const_first [OF assms]) auto
  }
qed

theorem render_pyramid_constant_level_witness:
  "Min (set (concat ([[1, 2], [3, 4]] :: image))) < Max (set (concat ([[1, 2], [3, 4]] :: image))) \<and>
   Min (set (concat ([[5, 6]] :: image))) < Max (set (concat ([[5, 6]] :: image))) \<and>
   render_pyramid [replicate 2 (replicate 2 (1 / 2))] 3 = Inl NonFinite"
proof (intro conjI)
  let ?pyr = "[[[1, 2], [3, 4]], [[5, 6]]] :: image list"
  have r: "render_pyramid ?pyr 2 = Inr [[0, 1 / 3, 0, 1], [2 / 3, 1, 0, 0]]"
    by (simp add: render_pyramid_def nth_err_def bindE_def stretch_image_def ncols_def
          upt_conv_Cons numeral_2_eq_2)
  have l: "(1::int) \<le> 2" by simp
  note t = render_pyramid_constant_level [OF l, of ?pyr, THEN conjunct1, rule_format, OF r]
  show "Min (set (concat ([[1, 2], [3, 4]] :: image))) < Max (set (concat ([[1, 2], [3, 4]] :: image)))"
    using t [of 0] by simp
  show "Min (set (concat ([[5, 6]] :: image))) < Max (set (concat ([[5, 6]] :: image)))"
    using t [of 1] by simp
next
  have l: "(1::int) \<le> 3" by simp
  show "render_pyramid [replicate 2 (replicate 2 (1 / 2))] 3 = Inl NonFinite"
    using render_pyramid_constant_level [OF l, of "[replicate 2 (replicate 2 (1 / 2))]",
        THEN conjunct2, rule_format, of 0 2 2 "1 / 2"]
    by simp
qed

section \<open>Blending under a constant mask\<close>

lemma gaussian_loop_length_shape:
  "pyr \<noteq> [] \<Longrightarrow> pyr' \<noteq> [] \<Longrightarrow> length pyr = length pyr' \<Longrightarrow>
   rect h w (last pyr) \<Longrightarrow> rect h w (last pyr') \<Longrightarrow> 0 < h \<Longrightarrow>
   length (gaussian_loop n fv pyr) = length (gaussian_loop n fv' pyr')"
proof (induction n arbitrary: pyr pyr' h w)
  case 0
  then show ?case by simp
next
  case (Suc n)
  have s: "length (last pyr) = h" "ncols (last pyr) = w"
    "length (last pyr') = h" "ncols (last pyr') = w"
    using Suc.prems by (simp_all add: rect_length rect_ncols)
  show ?case
  proof (cases "h \<le> MIN_IMG_SIZE \<or> w \<le> MIN_IMG_SIZE")
    case True
    then show ?thesis using s Suc.prems(3) by simp
  next
    case False
    have "length (gaussian_loop n fv (pyr @ [reduce (last pyr) fv]))
          = length (gaussian_loop n fv' (pyr' @ [reduce (last pyr') fv']))"
    proof (rule Suc.IH)
      show "rect ((h + 1) div 2) ((w + 1) div 2) (last (pyr @ [reduce (last pyr) fv]))"
        using rect_reduce [OF Suc.prems(4), of fv] by simp
      show "rect ((h + 1) div 2) ((w + 1) div 2) (last (pyr' @ [reduce (last pyr') fv']))"
        using rect_reduce [OF Suc.prems(5), of fv'] by simp
      show "0 < (h + 1) div 2" using Suc.prems(6) by simp
    qed (simp_all add: Suc.prems(3))
    then show ?thesis using False s by simp
  qed
qed

lemma laplacian_of_level_rect:
  assumes "laplacian_of fv G L" "reduce_chain fv G" "rect h w (G ! 0)" "i < length L"
  shows "rect ((halve ^^ i) h) ((halve ^^ i) w) (L ! i)"
proof (cases "Suc i < length G")
  case True
  note sh = level_shapes [OF assms(2,3) True]
  have l: "L ! i = map2 (map2 (\<lambda>x y. x - y)) (G ! i) (expand (G ! Suc i) fv)"
    and "\<exists>hh ww. rect hh ww (G ! i) \<and> rect hh ww (expand (G ! Suc i) fv)"
    using assms(1) True by (simp_all add: laplacian_of_def)
  then obtain hh ww where r: "rect hh ww (G ! i)" "rect hh ww (expand (G ! Suc i) fv)" by blast
  have "hh = (halve ^^ i) h" using rect_length [OF r(1)] rect_length [OF sh(1)] by simp
  moreover from this have "0 < hh" "0 < (halve ^^ i) h" using sh(3) by simp_all
  then have "ww = (halve ^^ i) w"
    using rect_ncols [OF r(1)] rect_ncols [OF sh(1)] by simp
  ultimately show ?thesis unfolding l using r by (simp add: rect_map2)
next
  case False
  have len: "length L = length G" "G \<noteq> []" "last L = last G"
    using assms(1) by (simp_all add: laplacian_of_def)
  then have i: "length G = Suc i" "length L = Suc i" using False assms(4) by simp_all
  have "L \<noteq> []" using len by auto
  then have "last L = L ! i" "last G = G ! i" using len(2) i by (simp_all add: last_conv_nth)
  then have "L ! i = G ! i" using len(3) by simp
  moreover have "rect ((halve ^^ i) h) ((halve ^^ i) w) (G ! i)"
    using assms(2,3) by (rule chain_rect) (simp add: i)
  ultimately show ?thesis by simp
qed

lemma mul_const_one:
  assumes "rect hh ww a"
  shows "map2 (map2 (\<lambda>x y. x * y)) (replicate hh (replicate ww 1)) a = (a :: image)"
proof (rule nth_equalityI)
  show "length (map2 (map2 (\<lambda>x y. x * y)) (replicate hh (replicate ww 1)) a) = length a"
    using assms by (simp add: rect_length)
next
  fix i assume "i < length (map2 (map2 (\<lambda>x y. x * y)) (replicate hh (replicate ww 1)) a)"
  then have i: "i < hh" "length a = hh" using assms by (simp_all add: rect_length)
  then have l: "length (a ! i) = ww" using assms by (simp add: rect_nth)
  show "map2 (map2 (\<lambda>x y. x * y)) (replicate hh (replicate ww 1)) a ! i = a ! i"
    using i l by (rule_tac nth_equalityI) simp_all
qed

lemma mul_const_zero:
  assumes "rect hh ww a"
  shows "map2 (map2 (\<lambda>x y. x * y)) (replicate hh (replicate ww 0)) (a :: image)
         = replicate hh (replicate ww 0)"
proof (rule nth_equalityI)
  show "length (map2 (map2 (\<lambda>x y. x * y)) (replicate hh (replicate ww 0)) a)
        = length (replicate hh (replicate ww (0::real)))"
    using assms by (simp add: rect_length)
next
  fix i assume "i < length (map2 (map2 (\<lambda>x y. x * y)) (replicate hh (replicate ww 0)) a)"
  then have i: "i < hh" "length a = hh" using assms by (simp_all add: rect_length)
  then have l: "length (a ! i) = ww" using assms by (simp add: rect_nth)
  show "map2 (map2 (\<lambda>x y. x * y)) (replicate hh (replicate ww 0)) a ! i
        = replicate hh (replicate ww 0) ! i"
    using i l by (rule_tac nth_equalityI) simp_all
qed

lemma add_const_zero:
  assumes "rect hh ww a"
  shows "map2 (map2 (\<lambda>x y. x + y)) a (replicate hh (replicate ww 0)) = (a :: image)"
    and "map2 (map2 (\<lambda>x y. x + y)) (replicate hh (replicate ww 0)) a = a"
proof -
  have l: "length a = hh" "\<And>i. i < hh \<Longrightarrow> length (a ! i) = ww"
    using assms by (simp_all add: rect_length rect_nth)
  show "map2 (map2 (\<lambda>x y. x + y)) a (replicate hh (replicate ww 0)) = a"
  proof (rule nth_equalityI)
    fix i assume "i < length (map2 (map2 (\<lambda>x y. x + y)) a (replicate hh (replicate ww 0)))"
    then have "i < hh" using l by simp
    then show "map2 (map2 (\<lambda>x y. x + y)) a (replicate hh (replicate ww 0)) ! i = a ! i"
      using l by (rule_tac nth_equalityI) simp_all
  qed (simp add: l)
  show "map2 (map2 (\<lambda>x y. x + y)) (replicate hh (replicate ww 0)) a = a"
  proof (rule nth_equalityI)
    fix i assume "i < length (map2 (map2 (\<lambda>x y. x + y)) (replicate hh (replicate ww 0)) a)"
    then have "i < hh" using l by simp
    then show "map2 (map2 (\<lambda>x y. x + y)) (replicate hh (replicate ww 0)) a ! i = a ! i"
      using l by (rule_tac nth_equalityI) simp_all
  qed (simp add: l)
qed

lemma one_minus_const:
  "scalar_add 1 (scalar_mul (- 1) (replicate hh (replicate ww c))) = replicate hh (replicate ww (1 - c))"
  by (simp add: scalar_add_def scalar_mul_def)

lemma blend_level_one:
  assumes "rect hh ww a" "rect hh ww b"
  shows "bindE (np_mul (replicate hh (replicate ww 1)) a) (\<lambda>x.
           bindE (np_mul (scalar_add 1 (scalar_mul (- 1) (replicate hh (replicate ww 1)))) b)
             (\<lambda>y. np_add x y)) = Inr a"
proof -
  have "np_mul (replicate hh (replicate ww 1)) a = Inr a"
    unfolding np_mul_def
    using np_binop_same_shape [OF rect_replicate assms(1)] by (simp add: mul_const_one [OF assms(1)])
  moreover have "np_mul (replicate hh (replicate ww 0)) b = Inr (replicate hh (replicate ww 0))"
    unfolding np_mul_def
    using np_binop_same_shape [OF rect_replicate assms(2)] by (simp add: mul_const_zero [OF assms(2)])
  moreover have "np_add a (replicate hh (replicate ww 0)) = Inr a"
    unfolding np_add_def
    using np_binop_same_shape [OF assms(1) rect_replicate] by (simp add: add_const_zero [OF assms(1)])
  ultimately show ?thesis by (simp add: one_minus_const bindE_def)
qed

lemma blend_level_zero:
  assumes "rect hh ww a" "rect hh ww b"
  shows "bindE (np_mul (replicate hh (replicate ww 0)) a) (\<lambda>x.
           bindE (np_mul (scalar_add 1 (scalar_mul (- 1) (replicate hh (replicate ww 0)))) b)
             (\<lambda>y. np_add x y)) = Inr b"
proof -
  have "np_mul (replicate hh (replicate ww 0)) a = Inr (replicate hh (replicate ww 0))"
    unfolding np_mul_def
    using np_binop_same_shape [OF rect_replicate assms(1)] by (simp add: mul_const_zero [OF assms(1)])
  moreover have "np_mul (replicate hh (replicate ww 1)) b = Inr b"
    unfolding np_mul_def
    using np_binop_same_shape [OF rect_replicate assms(2)] by (simp add: mul_const_one [OF assms(2)])
  moreover have "np_add (replicate hh (replicate ww 0)) b = Inr b"
    unfolding np_add_def
    using np_binop_same_shape [OF rect_replicate assms(2)] by (simp add: add_const_zero [OF assms(2)])
  ultimately show ?thesis by (simp add: one_minus_const bindE_def)
qed

lemma clip_unit:
  assumes "\<forall>r \<in> set im. \<forall>x \<in> set r. 0 \<le> x \<and> x \<le> 1"
  shows "clip im 0 1 = im"
proof -
  have *: "map (\<lambda>x. min 1 (max 0 x)) r = r" if r: "r \<in> set im" for r
  proof (rule map_idI)
    fix x assume "x \<in> set r"
    then have "0 \<le> x \<and> x \<le> 1" using assms r by blast
    then show "min 1 (max 0 x) = x" by (simp add: min_def max_def)
  qed
  show ?thesis unfolding clip_def by (rule map_idI) (rule *)
qed

lemma bindE_Inr: "bindE (Inr x) f = f x"
  by (simp add: bindE_def)

lemma blending_setup:
  assumes "rect h w im1" "rect h w im2" "0 < h" "0 < w" "1 \<le> max_levels"
    "filter_size_im \<le> 63" "filter_size_mask \<le> 63"
    "\<forall>i. Suc i < length (gaussian_loop (nat (max_levels - 1))
                              [kernel_row (nat (filter_size_im - 1))] [im1]) \<longrightarrow>
         even ((halve ^^ i) h) \<and> even ((halve ^^ i) w)"
  shows "\<exists>L1 L2 G1 G2 Gm fv fm.
     build_laplacian_pyramid im1 max_levels filter_size_im = Inr (L1, fv) \<and>
     build_laplacian_pyramid im2 max_levels filter_size_im = Inr (L2, fv) \<and>
     build_gaussian_pyramid (replicate h (replicate w c)) max_levels filter_size_mask = Inr (Gm, fm) \<and>
     laplacian_of fv G1 L1 \<and> laplacian_of fv G2 L2 \<and> G1 ! 0 = im1 \<and> G2 ! 0 = im2 \<and>
     length L2 = length L1 \<and> length Gm = length L1 \<and> length L1 \<le> nat max_levels \<and>
     (\<forall>i<length L1.
        rect ((halve ^^ i) h) ((halve ^^ i) w) (L1 ! i) \<and>
        rect ((halve ^^ i) h) ((halve ^^ i) w) (L2 ! i) \<and>
        Gm ! i = replicate ((halve ^^ i) h) (replicate ((halve ^^ i) w) c))"
proof -
  let ?n = "nat (max_levels - 1)"
  let ?fv = "[kernel_row (nat (filter_size_im - 1))]"
  let ?fm = "[kernel_row (nat (filter_size_mask - 1))]"
  let ?G1 = "gaussian_loop ?n ?fv [im1]" and ?G2 = "gaussian_loop ?n ?fv [im2]"
  let ?Gm = "gaussian_loop ?n ?fm [replicate h (replicate w c)]"
  have b1: "build_gaussian_pyramid im1 max_levels filter_size_im = Inr (?G1, ?fv)"
    and b2: "build_gaussian_pyramid im2 max_levels filter_size_im = Inr (?G2, ?fv)"
    using assms(6) by (simp_all add: build_gaussian_pyramid_small)
  have bm: "build_gaussian_pyramid (replicate h (replicate w c)) max_levels filter_size_mask
            = Inr (?Gm, ?fm)"
    using assms(7) by (rule build_gaussian_pyramid_small)
  have g1: "?G1 = gaussian_loop ?n ?fv [im1]" and g2: "?G2 = gaussian_loop ?n ?fv [im2]"
    by (rule refl)+
  note f1 = gaussian_loop_facts [OF g1] and f2 = gaussian_loop_facts [OF g2]
  have len12: "length ?G1 = length ?G2"
    using assms(1,2,3) by (intro gaussian_loop_length_shape [of _ _ h w]) simp_all
  have ev1: "\<forall>i. Suc i < length ?G1 \<longrightarrow> even ((halve ^^ i) h) \<and> even ((halve ^^ i) w)"
    by (rule assms(8))
  have ev2: "\<forall>i. Suc i < length ?G2 \<longrightarrow> even ((halve ^^ i) h) \<and> even ((halve ^^ i) w)"
    using ev1 unfolding len12 .
  from build_laplacian_pyramid_even [OF b1 assms(1) ev1] obtain L1 where
    L1: "build_laplacian_pyramid im1 max_levels filter_size_im = Inr (L1, ?fv)"
        "laplacian_of ?fv ?G1 L1" by blast
  from build_laplacian_pyramid_even [OF b2 assms(2) ev2] obtain L2 where
    L2: "build_laplacian_pyramid im2 max_levels filter_size_im = Inr (L2, ?fv)"
        "laplacian_of ?fv ?G2 L2" by blast
  have len1m: "length ?G1 = length ?Gm"
    using assms(1,3) by (intro gaussian_loop_length_shape [of _ _ h w]) (simp_all add: rect_replicate)
  have lL1: "length L1 = length ?G1" and lL2: "length L2 = length ?G2"
    using L1(2) L2(2) by (simp_all add: laplacian_of_def)
  have lenb: "length L1 \<le> nat max_levels" using f1(4) lL1 assms(5) by simp
  have r1: "rect h w (?G1 ! 0)" and r2: "rect h w (?G2 ! 0)"
    using f1(3) f2(3) assms(1,2) by simp_all
  have lev: "rect ((halve ^^ i) h) ((halve ^^ i) w) (L1 ! i) \<and>
        rect ((halve ^^ i) h) ((halve ^^ i) w) (L2 ! i) \<and>
        ?Gm ! i = replicate ((halve ^^ i) h) (replicate ((halve ^^ i) w) c)"
    if i: "i < length L1" for i
  proof (intro conjI)
    have i2: "i < length L2" using i lL1 lL2 len12 by simp
    have im: "i < length ?Gm" using i lL1 len1m by simp
    show "rect ((halve ^^ i) h) ((halve ^^ i) w) (L1 ! i)"
      using L1(2) f1(2) r1 i by (rule laplacian_of_level_rect)
    show "rect ((halve ^^ i) h) ((halve ^^ i) w) (L2 ! i)"
      using L2(2) f2(2) r2 i2 by (rule laplacian_of_level_rect)
    show "?Gm ! i = replicate ((halve ^^ i) h) (replicate ((halve ^^ i) w) c)"
      using assms(3,4) sum_kernel_row im by (rule gaussian_pyramid_const)
  qed
  have e1: "length L2 = length L1" using lL1 lL2 len12 by simp
  have e2: "length ?Gm = length L1" using lL1 len1m by simp
  have p1: "?G1 ! 0 = im1" and p2: "?G2 ! 0 = im2" by (rule f1(3), rule f2(3))
  have all: "\<forall>i<length L1.
        rect ((halve ^^ i) h) ((halve ^^ i) w) (L1 ! i) \<and>
        rect ((halve ^^ i) h) ((halve ^^ i) w) (L2 ! i) \<and>
        ?Gm ! i = replicate ((halve ^^ i) h) (replicate ((halve ^^ i) w) c)"
    using lev by blast
  show ?thesis
    by (rule exI [of _ L1], rule exI [of _ L2], rule exI [of _ ?G1], rule exI [of _ ?G2],
        rule exI [of _ ?Gm], rule exI [of _ ?fv], rule exI [of _ ?fm])
       (intro conjI L1 L2 bm p1 p2 e1 e2 lenb all)
qed

lemma pyramid_blending_ones:
  assumes "rect h w im1" "rect h w im2" "0 < h" "0 < w" "1 \<le> max_levels"
    "filter_size_im \<le> 63" "filter_size_mask \<le> 63"
    "\<forall>i. Suc i < length (gaussian_loop (nat (max_levels - 1))
                              [kernel_row (nat (filter_size_im - 1))] [im1]) \<longrightarrow>
         even ((halve ^^ i) h) \<and> even ((halve ^^ i) w)"
    "\<forall>r \<in> set im1. \<forall>x \<in> set r. 0 \<le> x \<and> x \<le> 1"
  shows "pyramid_blending im1 im2 (replicate h (replicate w True)) max_levels
           filter_size_im filter_size_mask = Inr im1"
proof -
  have m: "astype_float64 (replicate h (replicate w True)) = replicate h (replicate w 1)"
    by (simp add: astype_float64_def)
  from blending_setup [OF assms(1-8), of 1] obtain L1 L2 G1 G2 Gm fv fm where
    B1: "build_laplacian_pyramid im1 max_levels filter_size_im = Inr (L1, fv)" and
    B2: "build_laplacian_pyramid im2 max_levels filter_size_im = Inr (L2, fv)" and
    Bm: "build_gaussian_pyramid (replicate h (replicate w 1)) max_levels filter_size_mask
         = Inr (Gm, fm)" and
    lap: "laplacian_of fv G1 L1" "laplacian_of fv G2 L2" and
    p: "G1 ! 0 = im1" "G2 ! 0 = im2" and
    len: "length L2 = length L1" "length Gm = length L1" "length L1 \<le> nat max_levels" and
    lev: "\<forall>i<length L1.
        rect ((halve ^^ i) h) ((halve ^^ i) w) (L1 ! i) \<and>
        rect ((halve ^^ i) h) ((halve ^^ i) w) (L2 ! i) \<and>
        Gm ! i = replicate ((halve ^^ i) h) (replicate ((halve ^^ i) w) 1)"
    by blast
  let ?f = "\<lambda>i. bindE (nth_err Gm i) (\<lambda>g. bindE (np_mul g (L1 ! i)) (\<lambda>a.
              bindE (nth_err L2 i) (\<lambda>l.
              bindE (np_mul (scalar_add 1 (scalar_mul (- 1) g)) l) (\<lambda>b. np_add a b))))"
  have fi: "?f i = Inr (L1 ! i)" if i: "i < length L1" for i
  proof -
    have n: "nth_err Gm i = Inr (replicate ((halve ^^ i) h) (replicate ((halve ^^ i) w) 1))"
      "nth_err L2 i = Inr (L2 ! i)"
      using i len lev by (simp_all add: nth_err_def)
    have r: "rect ((halve ^^ i) h) ((halve ^^ i) w) (L1 ! i)"
      "rect ((halve ^^ i) h) ((halve ^^ i) w) (L2 ! i)"
      using i lev by simp_all
    show ?thesis unfolding n bindE_Inr using r by (rule blend_level_one)
  qed
  have "sequenceE (map ?f [0..<length L1]) = Inr (map (\<lambda>i. L1 ! i) [0..<length L1])"
    by (rule sequenceE_map_Inr) (simp add: fi)
  also have "map (\<lambda>i. L1 ! i) [0..<length L1] = L1"
    using map_nth [of L1] len(1) by simp
  finally have seq: "sequenceE (map ?f [0..<length L1]) = Inr L1" .
  have c: "\<forall>i<length L1. i < length (replicate (nat max_levels) (1::real)) \<and>
             replicate (nat max_levels) (1::real) ! i = 1"
    using len by simp
  have rt: "laplacian_to_image L1 fv (replicate (nat max_levels) 1) = Inr im1"
    using laplacian_to_image_roundtrip [OF lap(1) c] p(1) by simp
  show ?thesis
    unfolding pyramid_blending_def m
    by (simp only: B1 B2 Bm bindE_Inr split_conv seq rt clip_unit [OF assms(9)])
qed

lemma pyramid_blending_zeros:
  assumes "rect h w im1" "rect h w im2" "0 < h" "0 < w" "1 \<le> max_levels"
    "filter_size_im \<le> 63" "filter_size_mask \<le> 63"
    "\<forall>i. Suc i < length (gaussian_loop (nat (max_levels - 1))
                              [kernel_row (nat (filter_size_im - 1))] [im1]) \<longrightarrow>
         even ((halve ^^ i) h) \<and> even ((halve ^^ i) w)"
    "\<forall>r \<in> set im2. \<forall>x \<in> set r. 0 \<le> x \<and> x \<le> 1"
  shows "pyramid_blending im1 im2 (replicate h (replicate w False)) max_levels
           filter_size_im filter_size_mask = Inr im2"
proof -
  have m: "astype_float64 (replicate h (replicate w False)) = replicate h (replicate w 0)"
    by (simp add: astype_float64_def)
  from blending_setup [OF assms(1-8), of 0] obtain L1 L2 G1 G2 Gm fv fm where
    B1: "build_laplacian_pyramid im1 max_levels filter_size_im = Inr (L1, fv)" and
    B2: "build_laplacian_pyramid im2 max_levels filter_size_im = Inr (L2, fv)" and
    Bm: "build_gaussian_pyramid (replicate h (replicate w 0)) max_levels filter_size_mask
         = Inr (Gm, fm)" and
    lap: "laplacian_of fv G1 L1" "laplacian_of fv G2 L2" and
    p: "G1 ! 0 = im1" "G2 ! 0 = im2" and
    len: "length L2 = length L1" "length Gm = length L1" "length L1 \<le> nat max_levels" and
    lev: "\<forall>i<length L1.
        rect ((halve ^^ i) h) ((halve ^^ i) w) (L1 ! i) \<and>
        rect ((halve ^^ i) h) ((halve ^^ i) w) (L2 ! i) \<and>
        Gm ! i = replicate ((halve ^^ i) h) (replicate ((halve ^^ i) w) 0)"
    by blast
  let ?f = "\<lambda>i. bindE (nth_err Gm i) (\<lambda>g. bindE (np_mul g (L1 ! i)) (\<lambda>a.
              bindE (nth_err L2 i) (\<lambda>l.
              bindE (np_mul (scalar_add 1 (scalar_mul (- 1) g)) l) (\<lambda>b. np_add a b))))"
  have fi: "?f i = Inr (L2 ! i)" if i: "i < length L1" for i
  proof -
    have n: "nth_err Gm i = Inr (replicate ((halve ^^ i) h) (replicate ((halve ^^ i) w) 0))"
      "nth_err L2 i = Inr (L2 ! i)"
      using i len lev by (simp_all add: nth_err_def)
    have r: "rect ((halve ^^ i) h) ((halve ^^ i) w) (L1 ! i)"
      "rect ((halve ^^ i) h) ((halve ^^ i) w) (L2 ! i)"
      using i lev by simp_all
    show ?thesis unfolding n bindE_Inr using r by (rule blend_level_zero)
  qed
  have "sequenceE (map ?f [0..<length L1]) = Inr (map (\<lambda>i. L2 ! i) [0..<length L1])"
    by (rule sequenceE_map_Inr) (simp add: fi)
  also have "map (\<lambda>i. L2 ! i) [0..<length L1] = L2"
    using map_nth [of L2] len(1) by simp
  finally have seq: "sequenceE (map ?f [0..<length L1]) = Inr L2" .
  have c: "\<forall>i<length L2. i < length (replicate (nat max_levels) (1::real)) \<and>
             replicate (nat max_levels) (1::real) ! i = 1"
    using len by simp
  have rt: "laplacian_to_image L2 fv (replicate (nat max_levels) 1) = Inr im2"
    using laplacian_to_image_roundtrip [OF lap(2) c] p(2) by simp
  show ?thesis
    unfolding pyramid_blending_def m
    by (simp only: B1 B2 Bm bindE_Inr split_conv seq rt clip_unit [OF assms(9)])
qed

lemma pyramid_blending_odd:
  assumes "build_gaussian_pyramid im1 max_levels filter_size_im = Inr (G, fv)" "rect h w im1"
    "\<exists>i. Suc i < length G \<and> (odd ((halve ^^ i) h) \<or> odd ((halve ^^ i) w))"
  shows "pyramid_blending im1 im2 mask_arr max_levels filter_size_im filter_size_mask
         = Inl ValueError"
  using build_laplacian_pyramid_odd [OF assms]
  by (simp add: pyramid_blending_def bindE_def)

text \<open>
  C6. The claim: for every pair of valid images of the same shape, blending with the mask
  that is one everywhere returns the first image, and with the mask that is zero everywhere
  the second. \<^verbatim>\<open>pyramid_blending\<close> builds the Laplacian pyramids of both images first, and
  those are defined only where every expansion has the shape of the level it is subtracted
  from: for two \<open>17 \<times> 17\<close> images and \<open>max_levels = 2\<close> it raises \<^verbatim>\<open>ValueError\<close>.
\<close>

theorem pyramid_blending_odd_counterexample:
  "pyramid_blending (replicate 17 (replicate 17 (1 / 2))) (replicate 17 (replicate 17 (1 / 4)))
     (replicate 17 (replicate 17 True)) 2 3 3 = Inl ValueError"
proof -
  let ?im = "replicate 17 (replicate 17 (1 / 2 :: real))"
  have r: "rect 17 17 ?im" by (simp add: rect_def)
  have b: "build_gaussian_pyramid ?im 2 3 = Inr ([?im, reduce ?im [kernel_row 2]], [kernel_row 2])"
    using build_gaussian_pyramid_once [OF r, of 2 3] by simp
  show ?thesis
    by (rule pyramid_blending_odd [OF b r]) (rule exI [of _ 0], simp)
qed

text \<open>
  C6 as amended. Take two well-formed images of the same shape \<open>h \<times> w\<close>, \<open>max_levels \<ge> 1\<close>
  and filter sizes up to 63; the Gaussian pyramid \<open>G\<close> of the first image then exists, and
  that of the second has the same shapes. If every level of \<open>G\<close> but the last has even
  height and even width, \<^verbatim>\<open>pyramid_blending\<close> with the mask that is true everywhere returns
  the first image if its samples lie in \<open>[0, 1]\<close>, and with the mask that is false
  everywhere it returns the second image if its samples lie in \<open>[0, 1]\<close> (exactly, in the
  exact arithmetic of the model). If some level of \<open>G\<close> but the last has an odd height or
  width, \<^verbatim>\<open>pyramid_blending\<close> raises \<^verbatim>\<open>ValueError\<close>, whatever the mask: nothing is cropped.
\<close>

theorem pyramid_blending_mask_extremes:
  assumes "rect h w im1" "rect h w im2" "0 < h" "0 < w" "1 \<le> max_levels"
    "filter_size_im \<le> 63" "filter_size_mask \<le> 63"
  shows "\<exists>gauss_pyr filter_vec.
     build_gaussian_pyramid im1 max_levels filter_size_im = Inr (gauss_pyr, filter_vec) \<and>
     ((\<forall>i. Suc i < length gauss_pyr \<longrightarrow>
          even (fst (shape (gauss_pyr ! i))) \<and> even (snd (shape (gauss_pyr ! i)))) \<longrightarrow>
        ((\<forall>r \<in> set im1. \<forall>x \<in> set r. 0 \<le> x \<and> x \<le> 1) \<longrightarrow>
            pyramid_blending im1 im2 (replicate h (replicate w True)) max_levels
              filter_size_im filter_size_mask = Inr im1) \<and>
        ((\<forall>r \<in> set im2. \<forall>x \<in> set r. 0 \<le> x \<and> x \<le> 1) \<longrightarrow>
            pyramid_blending im1 im2 (replicate h (replicate w False)) max_levels
              filter_size_im filter_size_mask = Inr im2)) \<and>
     ((\<exists>i. Suc i < length gauss_pyr \<and>
           (odd (fst (shape (gauss_pyr ! i))) \<or> odd (snd (shape (gauss_pyr ! i))))) \<longrightarrow>
        (\<forall>mask_arr. pyramid_blending im1 im2 mask_arr max_levels filter_size_im filter_size_mask
           = Inl ValueError))"
proof -
  let ?fv = "[kernel_row (nat (filter_size_im - 1))]"
  let ?G = "gaussian_loop (nat (max_levels - 1)) ?fv [im1]"
  have b: "build_gaussian_pyramid im1 max_levels filter_size_im = Inr (?G, ?fv)"
    using assms(6) by (rule build_gaussian_pyramid_small)
  have g: "?G = gaussian_loop (nat (max_levels - 1)) ?fv [im1]" by (rule refl)
  note facts = gaussian_loop_facts [OF g]
  have r0: "rect h w (?G ! 0)" using facts(3) assms(1) by simp
  note sh = level_shape_eq [OF facts(2) r0]
  have A: "(\<forall>i. Suc i < length ?G \<longrightarrow>
          even (fst (shape (?G ! i))) \<and> even (snd (shape (?G ! i)))) \<longrightarrow>
        ((\<forall>r \<in> set im1. \<forall>x \<in> set r. 0 \<le> x \<and> x \<le> 1) \<longrightarrow>
            pyramid_blending im1 im2 (replicate h (replicate w True)) max_levels
              filter_size_im filter_size_mask = Inr im1) \<and>
        ((\<forall>r \<in> set im2. \<forall>x \<in> set r. 0 \<le> x \<and> x \<le> 1) \<longrightarrow>
            pyramid_blending im1 im2 (replicate h (replicate w False)) max_levels
              filter_size_im filter_size_mask = Inr im2)"
  proof (intro impI conjI)
    assume "\<forall>i. Suc i < length ?G \<longrightarrow>
          even (fst (shape (?G ! i))) \<and> even (snd (shape (?G ! i)))"
    then have ev: "\<forall>i. Suc i < length ?G \<longrightarrow> even ((halve ^^ i) h) \<and> even ((halve ^^ i) w)"
      using sh by simp
    {
      assume "\<forall>r \<in> set im1. \<forall>x \<in> set r. 0 \<le> x \<and> x \<le> 1"
      then show "pyramid_blending im1 im2 (replicate h (replicate w True)) max_levels
              filter_size_im filter_size_mask = Inr im1"
        by (rule pyramid_blending_ones [OF assms ev])
    }
    {
      assume "\<forall>r \<in> set im2. \<forall>x \<in> set r. 0 \<le> x \<and> x \<le> 1"
      then show "pyramid_blending im1 im2 (replicate h (replicate w False)) max_levels
              filter_size_im filter_size_mask = Inr im2"
        by (rule pyramid_blending_zeros [OF assms ev])
    }
  qed
  have B: "(\<exists>i. Suc i < length ?G \<and>
           (odd (fst (shape (?G ! i))) \<or> odd (snd (shape (?G ! i))))) \<longrightarrow>
        (\<forall>mask_arr. pyramid_blending im1 im2 mask_arr max_levels filter_size_im filter_size_mask
           = Inl ValueError)"
  proof (intro impI allI)
    fix mask_arr
    assume "\<exists>i. Suc i < length ?G \<and>
           (odd (fst (shape (?G ! i))) \<or> odd (snd (shape (?G ! i))))"
    then have "\<exists>i. Suc i < length ?G \<and> (odd ((halve ^^ i) h) \<or> odd ((halve ^^ i) w))"
      using sh by auto
    then show "pyramid_blending im1 im2 mask_arr max_levels filter_size_im filter_size_mask
           = Inl ValueError"
      by (rule pyramid_blending_odd [OF b assms(1)])
  qed
  show ?thesis
    by (rule exI [of _ ?G], rule exI [of _ ?fv]) (intro conjI b A B)
qed

theorem pyramid_blending_mask_extremes_witness:
  "pyramid_blending (replicate 40 (replicate 40 (1 / 4)))
     (map (\<lambda>i. map (\<lambda>j. if even (i + j) then 1 else 0) [0..<40]) [0..<40])
     (replicate 40 (replicate 40 True)) 5 3 5
   = Inr (replicate 40 (replicate 40 (1 / 4))) \<and>
   pyramid_blending (replicate 40 (replicate 40 (1 / 4)))
     (map (\<lambda>i. map (\<lambda>j. if even (i + j) then 1 else 0) [0..<40]) [0..<40])
     (replicate 40 (replicate 40 False)) 5 3 5
   = Inr (map (\<lambda>i. map (\<lambda>j. if even (i + j) then 1 else 0) [0..<40]) [0..<40]) \<and>
   pyramid_blending (replicate 33 (replicate 32 (1 / 4))) (replicate 33 (replicate 32 (3 / 4)))
     (replicate 33 (replicate 32 True)) 2 3 5
   = Inl ValueError"
proof (intro conjI)
  let ?im1 = "replicate 40 (replicate 40 (1 / 4)) :: image"
  let ?im2 = "map (\<lambda>i. map (\<lambda>j. if even (i + j) then 1 else 0) [0..<40]) [0..<40] :: image"
  have r: "rect 40 40 ?im1" "rect 40 40 ?im2" by (simp_all add: rect_def)
  have b1: "\<forall>r \<in> set ?im1. \<forall>x \<in> set r. 0 \<le> x \<and> x \<le> 1" by simp
  have b2: "\<forall>r \<in> set ?im2. \<forall>x \<in> set r. 0 \<le> x \<and> x \<le> 1" by auto
  have z: "0 < (40::nat)" "(1::int) \<le> 5" "(3::int) \<le> 63" "(5::int) \<le> 63" by simp_all
  from pyramid_blending_mask_extremes [OF r z(1) z(1) z(2) z(3) z(4)] obtain G fv where
    g: "build_gaussian_pyramid ?im1 5 3 = Inr (G, fv)" and
    e: "(\<forall>i. Suc i < length G \<longrightarrow>
          even (fst (shape (G ! i))) \<and> even (snd (shape (G ! i)))) \<longrightarrow>
        ((\<forall>r \<in> set ?im1. \<forall>x \<in> set r. 0 \<le> x \<and> x \<le> 1) \<longrightarrow>
            pyramid_blending ?im1 ?im2 (replicate 40 (replicate 40 True)) 5 3 5 = Inr ?im1) \<and>
        ((\<forall>r \<in> set ?im2. \<forall>x \<in> set r. 0 \<le> x \<and> x \<le> 1) \<longrightarrow>
            pyramid_blending ?im1 ?im2 (replicate 40 (replicate 40 False)) 5 3 5 = Inr ?im2)"
    by blast
  note facts = gaussian_loop_facts [OF build_gaussian_pyramid_Inr [OF g]]
  have r0: "rect 40 40 (G ! 0)" using facts(3) r(1) by simp
  have ev: "even (fst (shape (G ! i))) \<and> even (snd (shape (G ! i)))" if i: "Suc i < length G" for i
  proof -
    have "i < 2"
    proof (rule ccontr)
      assume "\<not> i < 2"
      then have "Suc 2 < length G" using i by simp
      from level_shapes(3) [OF facts(2) r0 this] have "16 < halve (halve 40)"
        by (simp add: numeral_2_eq_2)
      then show False by (simp add: halve_def)
    qed
    then have "i = 0 \<or> i = 1" by auto
    then have "even ((halve ^^ i) 40)" by (auto simp: halve_def)
    then show ?thesis using level_shape_eq [OF facts(2) r0 i] by simp
  qed
  then have p: "pyramid_blending ?im1 ?im2 (replicate 40 (replicate 40 True)) 5 3 5 = Inr ?im1 \<and>
      pyramid_blending ?im1 ?im2 (replicate 40 (replicate 40 False)) 5 3 5 = Inr ?im2"
    using e b1 b2 by blast
  show "pyramid_blending ?im1 ?im2 (replicate 40 (replicate 40 True)) 5 3 5 = Inr ?im1"
    using p by (rule conjunct1)
  show "pyramid_blending ?im1 ?im2 (replicate 40 (replicate 40 False)) 5 3 5 = Inr ?im2"
    using p by (rule conjunct2)
next
  let ?im1 = "replicate 33 (replicate 32 (1 / 4)) :: image"
  let ?im2 = "replicate 33 (replicate 32 (3 / 4)) :: image"
  let ?G = "[?im1, reduce ?im1 [kernel_row 2]]"
  have r: "rect 33 32 ?im1" "rect 33 32 ?im2" by (simp_all add: rect_def)
  have b: "build_gaussian_pyramid ?im1 2 3 = Inr (?G, [kernel_row 2])"
    using build_gaussian_pyramid_once [OF r(1), of 2 3] by simp
  have odd: "\<exists>i. Suc i < length ?G \<and> (odd (fst (shape (?G ! i))) \<or> odd (snd (shape (?G ! i))))"
    using shape_rect [OF r(1)] by (intro exI [of _ 0]) simp
  from pyramid_blending_mask_extremes [OF r, of 2 3 5] b odd
  show "pyramid_blending ?im1 ?im2 (replicate 33 (replicate 32 True)) 2 3 5 = Inl ValueError"
    by auto
qed

end
